theory Spec2Isabelle
  imports Main "HOL-Library.Word" "HOL-Library.Sublist" "HOL-Library.Multiset"
begin

section \<open>Data model\<close>

text \<open>
  The source works on \<^verbatim>\<open>std::vector<uchar>\<close> buffers. A \<^verbatim>\<open>uchar\<close> is an 8-bit
  unsigned value whose arithmetic wraps around; the frequency counters are C++
  \<^verbatim>\<open>int\<close>s, taken here as 32-bit two's complement words read through \<open>sint\<close>.
\<close>

type_synonym uchar = "8 word"
type_synonym cint = "32 word"

section \<open>Run-length encoding\<close>

text \<open>
  \<^verbatim>\<open>
  for (size_t i = 0; i < data.size(); ++i) {
      uchar count = 1;
      while (i + 1 < data.size() && data[i] == data[i + 1]) { ++count; ++i; }
      encodedData.push_back(data[i]);
      encodedData.push_back(count);
  }
  \<close>
  The inner \<^verbatim>\<open>while\<close> is \<open>rle_while\<close>: it returns the advanced index and the counter
  (\<^verbatim>\<open>count\<close> in the source, \<open>counter\<close> here, \<open>count\<close> being a constant of the multiset
  library), which is a \<open>uchar\<close> and so wraps from 255 to 0. The outer \<^verbatim>\<open>for\<close> is \<open>rle_for\<close>.
  Every index read is in range: the inner loop reads \<open>i\<close> and \<open>i + 1\<close> only after
  checking \<open>i + 1 < size\<close>, and the outer loop body starts with \<open>i < size\<close>.
\<close>

function rle_while :: "uchar list \<Rightarrow> nat \<Rightarrow> uchar \<Rightarrow> nat \<times> uchar" where
  "rle_while data i counter =
     (if i + 1 < length data \<and> data ! i = data ! (i + 1)
      then rle_while data (i + 1) (counter + 1)
      else (i, counter))"
  by pat_completeness auto
termination
  by (relation "measure (\<lambda>(data, i, counter). length data - i)") auto

declare rle_while.simps [simp del]

lemma rle_while_ge: "i \<le> fst (rle_while data i counter)"
proof (induction data i counter rule: rle_while.induct)
  case (1 data i counter)
  show ?case
  proof (cases "i + 1 < length data \<and> data ! i = data ! (i + 1)")
    case True
    with "1" have "i + 1 \<le> fst (rle_while data i counter)"
      by (subst rle_while.simps) simp
    then show ?thesis by simp
  next
    case False
    then show ?thesis by (subst rle_while.simps) auto
  qed
qed

lemma rle_while_index: "(j, counter') = rle_while data i counter \<Longrightarrow> i \<le> j"
  using rle_while_ge [of i data counter] by (metis fst_conv)

function rle_for :: "uchar list \<Rightarrow> nat \<Rightarrow> uchar list \<Rightarrow> uchar list" where
  "rle_for data i encodedData =
     (if i < length data
      then (case rle_while data i 1 of
              (j, counter) \<Rightarrow> rle_for data (j + 1) (encodedData @ [data ! j, counter]))
      else encodedData)"
  by pat_completeness auto
termination
  by (relation "measure (\<lambda>(data, i, encodedData). length data - i)")
     (auto dest: rle_while_index)

declare rle_for.simps [simp del]

definition runLengthEncode :: "uchar list \<Rightarrow> uchar list" where
  "runLengthEncode data = rle_for data 0 []"

subsection \<open>Maximal runs\<close>

text \<open>
  The specification speaks of the maximal runs of identical consecutive values of a
  buffer, read left to right. \<open>maximal_runs\<close> is that notion on its own, independent
  of the encoder: each run is a value with the number of its repetitions, as a natural
  number.
\<close>

function maximal_runs :: "'a list \<Rightarrow> ('a \<times> nat) list" where
  "maximal_runs [] = []"
| "maximal_runs (x # xs) =
     (x, Suc (length (takeWhile ((=) x) xs))) # maximal_runs (dropWhile ((=) x) xs)"
  by pat_completeness auto
termination
  by (relation "measure length") (auto simp: length_dropWhile_le less_Suc_eq_le)

text \<open>
  \<open>counted\<close> stores the length of a run in a \<open>uchar\<close>, and \<open>flat_runs\<close> writes pairs
  out as the flat sequence value, count, value, count, ... that the encoder emits.
\<close>

definition flat_runs :: "(uchar \<times> uchar) list \<Rightarrow> uchar list" where
  "flat_runs rs = concat (map (\<lambda>(v, c). [v, c]) rs)"

definition counted :: "(uchar \<times> nat) \<Rightarrow> (uchar \<times> uchar)" where
  "counted r = (fst r, of_nat (snd r))"

lemma rle_while_run:
  "i < length data \<Longrightarrow>
   rle_while data i counter =
     (i + length (takeWhile ((=) (data ! i)) (drop (Suc i) data)),
      counter + of_nat (length (takeWhile ((=) (data ! i)) (drop (Suc i) data))))"
proof (induction data i counter rule: rle_while.induct)
  case (1 data i counter)
  show ?case
  proof (cases "i + 1 < length data")
    case False
    then show ?thesis by (subst rle_while.simps) simp
  next
    case True
    then have d: "drop (Suc i) data = data ! (Suc i) # drop (Suc (Suc i)) data"
      by (simp add: Cons_nth_drop_Suc)
    show ?thesis
    proof (cases "data ! i = data ! (i + 1)")
      case False
      with True d show ?thesis by (subst rle_while.simps) simp
    next
      case eq: True
      with True "1.IH" have
        "rle_while data (i + 1) (counter + 1) =
          (i + 1 + length (takeWhile ((=) (data ! (i + 1))) (drop (Suc (i + 1)) data)),
           counter + 1 + of_nat (length (takeWhile ((=) (data ! (i + 1))) (drop (Suc (i + 1)) data))))"
        by simp
      with True eq d show ?thesis
        by (subst rle_while.simps) (simp add: add.assoc)
    qed
  qed
qed

lemma nth_after_run:
  "i < length data \<Longrightarrow>
   data ! (i + length (takeWhile ((=) (data ! i)) (drop (Suc i) data))) = data ! i"
proof (cases "length (takeWhile ((=) (data ! i)) (drop (Suc i) data))")
  case 0
  then show ?thesis by simp
next
  case (Suc k)
  assume lt: "i < length data"
  let ?tw = "takeWhile ((=) (data ! i)) (drop (Suc i) data)"
  have k: "k < length ?tw" using Suc by simp
  then have "?tw ! k \<in> set ?tw" by (rule nth_mem)
  then have "data ! i = ?tw ! k" by (rule set_takeWhileD [THEN conjunct2])
  moreover have "?tw ! k = drop (Suc i) data ! k" using k by (rule takeWhile_nth)
  moreover have "Suc i + k \<le> length data"
    using k length_takeWhile_le [of "(=) (data ! i)" "drop (Suc i) data"] by simp
  then have "drop (Suc i) data ! k = data ! (Suc i + k)" by (simp add: nth_drop)
  ultimately show ?thesis using Suc by simp
qed

lemma rle_for_runs:
  "rle_for data i encodedData =
     encodedData @ flat_runs (map counted (maximal_runs (drop i data)))"
proof (induction data i encodedData rule: rle_for.induct)
  case (1 data i encodedData)
  show ?case
  proof (cases "i < length data")
    case False
    then show ?thesis by (subst rle_for.simps) (simp add: flat_runs_def)
  next
    case True
    let ?k = "length (takeWhile ((=) (data ! i)) (drop (Suc i) data))"
    have w: "rle_while data i 1 = (i + ?k, 1 + of_nat ?k)"
      using True by (rule rle_while_run)
    have d: "drop i data = data ! i # drop (Suc i) data"
      using True by (simp add: Cons_nth_drop_Suc)
    have dw: "dropWhile ((=) (data ! i)) (drop (Suc i) data) = drop (i + ?k + 1) data"
      by (simp add: dropWhile_eq_drop add.commute)
    have "rle_for data (i + ?k + 1) (encodedData @ [data ! (i + ?k), 1 + of_nat ?k]) =
      (encodedData @ [data ! (i + ?k), 1 + of_nat ?k]) @
        flat_runs (map counted (maximal_runs (drop (i + ?k + 1) data)))"
      using "1.IH" [OF True w [symmetric]] .
    then show ?thesis
      using True w d dw nth_after_run [OF True]
      by (subst rle_for.simps) (simp add: flat_runs_def counted_def)
  qed
qed

text \<open>
  The encoder's output is a flat byte sequence value, count, value, count, ...;
  \<open>pairs_of\<close> reads it back as pairs and \<open>run_lengths\<close> reads each count byte as the
  number it denotes.
\<close>

fun pairs_of :: "uchar list \<Rightarrow> (uchar \<times> uchar) list" where
  "pairs_of (v # c # rest) = (v, c) # pairs_of rest"
| "pairs_of _ = []"

definition run_lengths :: "uchar list \<Rightarrow> (uchar \<times> nat) list" where
  "run_lengths encoded = map (\<lambda>(v, c). (v, unat c)) (pairs_of encoded)"

lemma runLengthEncode_runs:
  "runLengthEncode data = flat_runs (map counted (maximal_runs data))"
  by (simp add: runLengthEncode_def rle_for_runs)

lemma flat_runs_Nil [simp]: "flat_runs [] = []"
  by (simp add: flat_runs_def)

lemma flat_runs_Cons [simp]: "flat_runs ((v, c) # rs) = v # c # flat_runs rs"
  by (simp add: flat_runs_def)

lemma counted_pair [simp]: "counted (v, n) = (v, of_nat n)"
  by (simp add: counted_def)

lemma pairs_of_flat_runs: "pairs_of (flat_runs rs) = rs"
  by (induction rs) auto

lemma length_flat_runs: "length (flat_runs rs) = 2 * length rs"
  by (induction rs) auto

text \<open>
  \<open>maximal_runs\<close> is what its name says: the runs, expanded in order, give the
  buffer back; no run is empty; and neighbouring runs have different values.
\<close>

lemma maximal_runs_expand:
  "concat (map (\<lambda>(v, n). replicate n v) (maximal_runs xs)) = xs"
proof (induction xs rule: maximal_runs.induct)
  case 1
  then show ?case by simp
next
  case (2 x xs)
  have "replicate (length (takeWhile ((=) x) xs)) x = takeWhile ((=) x) xs"
    by (rule replicate_length_same [symmetric, THEN sym]) (auto dest: set_takeWhileD)
  with 2 show ?case by simp
qed

lemma maximal_runs_pos: "(v, n) \<in> set (maximal_runs xs) \<Longrightarrow> 0 < n"
  by (induction xs arbitrary: v n rule: maximal_runs.induct) auto

lemma maximal_runs_adjacent: "distinct_adj (map fst (maximal_runs xs))"
proof (induction xs rule: maximal_runs.induct)
  case 1
  then show ?case by simp
next
  case (2 x xs)
  show ?case
  proof (cases "dropWhile ((=) x) xs")
    case Nil
    show ?thesis unfolding maximal_runs.simps Nil by simp
  next
    case (Cons y ys)
    then have "x \<noteq> y" using hd_dropWhile [of "(=) x" xs] by auto
    with 2 Cons show ?thesis by simp
  qed
qed

lemma maximal_runs_replicate: "0 < n \<Longrightarrow> maximal_runs (replicate n a) = [(a, n)]"
  by (cases n) (simp_all add: takeWhile_replicate dropWhile_replicate)

section \<open>Huffman coding\<close>

subsection \<open>Errors\<close>

text \<open>
  The source never signals an error itself, but two library calls it makes can fail:
  \<^verbatim>\<open>pq.top()\<close> and \<^verbatim>\<open>pq.pop()\<close> on an empty \<^verbatim>\<open>std::priority_queue\<close> (undefined
  behaviour), and the \<^verbatim>\<open>std::bitset\<close> constructor on a string with a character other
  than 0 and 1 (it throws \<^verbatim>\<open>std::invalid_argument\<close>).
\<close>

datatype error = EmptyQueueAccess | InvalidArgument

subsection \<open>Nodes\<close>

text \<open>
  \<^verbatim>\<open>struct HuffmanNode { uchar data; int freq; HuffmanNode* left; HuffmanNode* right; }\<close>.
  The constructor sets both pointers to null (\<open>Leaf\<close>); the only other nodes are built
  in the merge loop, which sets both pointers (\<open>Node\<close>, with \<open>data = 0\<close>).
\<close>

datatype HuffmanNode =
    Leaf (node_data: uchar) (node_freq: cint)
  | Node (node_data: uchar) (node_freq: cint) (node_left: HuffmanNode) (node_right: HuffmanNode)

text \<open>\<^verbatim>\<open>return (l->freq > r->freq);\<close> on C++ \<^verbatim>\<open>int\<close>s, a signed comparison.\<close>

definition HuffmanNodeCompare :: "HuffmanNode \<Rightarrow> HuffmanNode \<Rightarrow> bool" where
  "HuffmanNodeCompare l r \<longleftrightarrow> sint (node_freq l) > sint (node_freq r)"

subsection \<open>Frequency table\<close>

text \<open>
  \<^verbatim>\<open>std::unordered_map<uchar, int> freq; for (uchar ch : data) freq[ch]++;\<close>
  \<^verbatim>\<open>freq[ch]\<close> inserts the key with value 0 when it is absent.
\<close>

definition freq_incr :: "(uchar \<rightharpoonup> cint) \<Rightarrow> uchar \<Rightarrow> (uchar \<rightharpoonup> cint)" where
  "freq_incr freq ch = freq(ch \<mapsto> (case freq ch of None \<Rightarrow> 0 | Some n \<Rightarrow> n) + 1)"

definition count_frequencies :: "uchar list \<Rightarrow> (uchar \<rightharpoonup> cint)" where
  "count_frequencies data = foldl freq_incr Map.empty data"

text \<open>
  \<^verbatim>\<open>for (auto pair : freq) pq.push(new HuffmanNode(pair.first, pair.second));\<close>
  The order in which an \<^verbatim>\<open>unordered_map\<close> is traversed is not fixed by the language:
  any listing of its entries, each key once, is an admissible traversal.
\<close>

definition iteration_order :: "(uchar \<rightharpoonup> cint) \<Rightarrow> (uchar \<times> cint) list \<Rightarrow> bool" where
  "iteration_order freq entries \<longleftrightarrow> distinct (map fst entries) \<and> map_of entries = freq"

definition leaf_of :: "uchar \<times> cint \<Rightarrow> HuffmanNode" where
  "leaf_of pair = Leaf (fst pair) (snd pair)"

subsection \<open>Priority queue and merge loop\<close>

text \<open>
  The queue is the bag of nodes it holds, kept here as a list. \<^verbatim>\<open>pq.top()\<close> returns
  an element that the comparison puts below no other, that is one of least \<open>freq\<close>;
  which one, among several of equal \<open>freq\<close>, is left to the library.
\<close>

definition pq_top :: "HuffmanNode list \<Rightarrow> HuffmanNode \<Rightarrow> bool" where
  "pq_top pq t \<longleftrightarrow> t \<in> set pq \<and> list_all (\<lambda>u. \<not> HuffmanNodeCompare t u) pq"

text \<open>
  \<^verbatim>\<open>
  while (pq.size() != 1) {
      HuffmanNode* left = pq.top(); pq.pop();
      HuffmanNode* right = pq.top(); pq.pop();
      int sum = left->freq + right->freq;
      HuffmanNode* node = new HuffmanNode('\0', sum);
      node->left = left; node->right = right;
      pq.push(node);
  }
  HuffmanNode* root = pq.top();
  \<close>
  With an empty queue the loop condition holds (\<open>0 \<noteq> 1\<close>) and the first \<^verbatim>\<open>pq.top()\<close>
  is an access to an empty queue. From two or more elements both accesses succeed.
\<close>

inductive merge_loop :: "HuffmanNode list \<Rightarrow> error + HuffmanNode \<Rightarrow> bool" where
  root: "merge_loop [t] (Inr t)"
| empty: "merge_loop [] (Inl EmptyQueueAccess)"
| merge: "length pq \<noteq> 1 \<Longrightarrow> pq_top pq l \<Longrightarrow> pq_top (remove1 l pq) r \<Longrightarrow>
          merge_loop (Node 0 (node_freq l + node_freq r) l r # remove1 r (remove1 l pq)) out \<Longrightarrow>
          merge_loop pq out"

subsection \<open>Code table\<close>

text \<open>
  \<^verbatim>\<open>
  encode = [&](HuffmanNode* node, std::string str) {
      if (node == nullptr) return;
      if (!node->left && !node->right) huffmanCode[node->data] = str;
      encode(node->left, str + "0");
      encode(node->right, str + "1");
  };
  \<close>
  On a leaf the two recursive calls return at once; the table is threaded through.
\<close>

fun encode :: "HuffmanNode \<Rightarrow> string \<Rightarrow> (uchar \<rightharpoonup> string) \<Rightarrow> (uchar \<rightharpoonup> string)" where
  "encode (Leaf d f) str huffmanCode = huffmanCode(d \<mapsto> str)"
| "encode (Node d f l r) str huffmanCode =
     encode r (str @ ''1'') (encode l (str @ ''0'') huffmanCode)"

inductive buildHuffmanTree ::
  "uchar list \<Rightarrow> (uchar \<rightharpoonup> string) \<Rightarrow> error + (uchar \<rightharpoonup> string) \<Rightarrow> bool" where
  built: "iteration_order (count_frequencies data) entries \<Longrightarrow>
          merge_loop (map leaf_of entries) (Inr root) \<Longrightarrow>
          buildHuffmanTree data huffmanCode (Inr (encode root [] huffmanCode))"
| failed: "iteration_order (count_frequencies data) entries \<Longrightarrow>
          merge_loop (map leaf_of entries) (Inl e) \<Longrightarrow>
          buildHuffmanTree data huffmanCode (Inl e)"

subsection \<open>Bit packing\<close>

text \<open>
  \<^verbatim>\<open>std::bitset<8> bits(s); static_cast<uchar>(bits.to_ulong())\<close> for a string of at
  most 8 characters: the string is read as a binary numeral, its last character being
  bit 0; a character other than 0 and 1 makes the constructor throw.
\<close>

definition bit_char :: "char \<Rightarrow> bool" where
  "bit_char c \<longleftrightarrow> c = CHR ''0'' \<or> c = CHR ''1''"

definition bitset8 :: "string \<Rightarrow> error + uchar" where
  "bitset8 s =
     (if list_all bit_char s
      then Inr (foldl (\<lambda>v c. 2 * v + (if c = CHR ''1'' then 1 else 0)) 0 (take 8 s))
      else Inl InvalidArgument)"

text \<open>
  \<^verbatim>\<open>
  for (size_t i = 0; i < encodedStr.size(); i += 8) {
      std::bitset<8> bits(encodedStr.substr(i, 8));
      encodedData.push_back(static_cast<uchar>(bits.to_ulong()));
  }
  \<close>
\<close>

function pack_loop :: "string \<Rightarrow> nat \<Rightarrow> uchar list \<Rightarrow> error + uchar list" where
  "pack_loop encodedStr i encodedData =
     (if i < length encodedStr
      then (case bitset8 (take 8 (drop i encodedStr)) of
              Inl e \<Rightarrow> Inl e
            | Inr b \<Rightarrow> pack_loop encodedStr (i + 8) (encodedData @ [b]))
      else Inr encodedData)"
  by pat_completeness auto
termination
  by (relation "measure (\<lambda>(encodedStr, i, encodedData). length encodedStr - i)") auto

declare pack_loop.simps [simp del]

text \<open>
  \<^verbatim>\<open>for (uchar ch : data) encodedStr += huffmanCode[ch];\<close>
  \<^verbatim>\<open>huffmanCode[ch]\<close> yields the empty string for an absent key.
\<close>

definition code_of :: "(uchar \<rightharpoonup> string) \<Rightarrow> uchar \<Rightarrow> string" where
  "code_of huffmanCode ch = (case huffmanCode ch of None \<Rightarrow> [] | Some str \<Rightarrow> str)"

definition encoded_string :: "(uchar \<rightharpoonup> string) \<Rightarrow> uchar list \<Rightarrow> string" where
  "encoded_string huffmanCode data = foldl (\<lambda>encodedStr ch. encodedStr @ code_of huffmanCode ch) [] data"

inductive huffmanEncode :: "uchar list \<Rightarrow> error + uchar list \<Rightarrow> bool" where
  packed: "buildHuffmanTree data Map.empty (Inr huffmanCode) \<Longrightarrow>
           huffmanEncode data (pack_loop (encoded_string huffmanCode data) 0 [])"
| failed: "buildHuffmanTree data Map.empty (Inl e) \<Longrightarrow> huffmanEncode data (Inl e)"

section \<open>Properties of the run-length encoder\<close>

text \<open>
  Claim C8. For every input buffer in which every maximal run of identical consecutive
  bytes has length at most 255, the output of the RLE encoder is exactly the
  left-to-right sequence of (value, count) pairs of those maximal runs: read as pairs,
  with each count byte taken as a number, the output is \<open>maximal_runs data\<close>, and it
  holds nothing but these pairs. The instance shown is the input "aaaabbbcc", whose
  runs are (a,4), (b,3), (c,2).
\<close>

theorem rle_emits_maximal_runs:
  assumes "list_all (\<lambda>r. snd r \<le> 255) (maximal_runs data)"
  shows "run_lengths (runLengthEncode data) = maximal_runs data
    \<and> length (runLengthEncode data) = 2 * length (maximal_runs data)"
proof -
  have "list_all (\<lambda>r. snd r \<le> 255) rs \<Longrightarrow>
      map (\<lambda>(v, c). (v, unat c)) (map counted rs) = rs"
    for rs :: "(uchar \<times> nat) list"
    by (induction rs) (auto simp: unat_of_nat)
  with assms show ?thesis
    by (simp add: run_lengths_def runLengthEncode_runs pairs_of_flat_runs length_flat_runs)
qed

theorem rle_emits_maximal_runs_witness:
  "maximal_runs [97, 97, 97, 97, 98, 98, 98, 99, 99 :: uchar] = [(97, 4), (98, 3), (99, 2)]
   \<and> run_lengths (runLengthEncode [97, 97, 97, 97, 98, 98, 98, 99, 99]) =
       [(97, 4), (98, 3), (99, 2)]
   \<and> runLengthEncode [97, 97, 97, 97, 98, 98, 98, 99, 99] = [97, 4, 98, 3, 99, 2]"
proof -
  have runs: "maximal_runs [97, 97, 97, 97, 98, 98, 98, 99, 99 :: uchar] =
      [(97, 4), (98, 3), (99, 2)]"
    by simp
  then have "list_all (\<lambda>r. snd r \<le> 255)
      (maximal_runs [97, 97, 97, 97, 98, 98, 98, 99, 99 :: uchar])"
    by simp
  from rle_emits_maximal_runs [OF this] runs show ?thesis
    by (simp add: runLengthEncode_runs)
qed

text \<open>
  Claim C10. For every maximal run of \<open>n\<close> identical consecutive bytes the encoder
  emits exactly one (value, count) pair, and its count is \<open>n mod 256\<close>, the 8-bit
  counter having wrapped around; a run of exactly 256 identical bytes is emitted with
  count 0; the output always has even length, two bytes for each maximal run.
\<close>

theorem rle_count_wraps:
  "run_lengths (runLengthEncode data) = map (\<lambda>(v, n). (v, n mod 256)) (maximal_runs data)
   \<and> length (runLengthEncode data) = 2 * length (maximal_runs data)
   \<and> runLengthEncode (replicate 256 a) = [a, 0]"
proof -
  have "map (\<lambda>(v, c). (v, unat c)) (map counted rs) = map (\<lambda>(v, n). (v, n mod 256)) rs"
    for rs :: "(uchar \<times> nat) list"
    by (induction rs) (auto simp: unat_of_nat)
  then have "run_lengths (runLengthEncode data) =
      map (\<lambda>(v, n). (v, n mod 256)) (maximal_runs data)"
    by (simp add: run_lengths_def runLengthEncode_runs pairs_of_flat_runs)
  moreover have "length (runLengthEncode data) = 2 * length (maximal_runs data)"
    by (simp add: runLengthEncode_runs length_flat_runs)
  moreover have "runLengthEncode (replicate 256 a) = [a, 0]"
    by (simp add: runLengthEncode_runs maximal_runs_replicate)
  ultimately show ?thesis by simp
qed

theorem rle_count_wraps_witness:
  "run_lengths (runLengthEncode (replicate 600 65 @ [66])) = [(65, 88), (66, 1)]
   \<and> length (runLengthEncode (replicate 600 65 @ [66])) = 4"
proof -
  have "dropWhile ((=) (65 :: uchar)) (replicate 599 65 @ [66]) = [66]"
    by (simp add: dropWhile_append3)
  moreover have "takeWhile ((=) (65 :: uchar)) (replicate 599 65 @ [66]) = replicate 599 65"
    by (simp add: takeWhile_tail)
  moreover have "replicate 600 (65 :: uchar) @ [66] = 65 # (replicate 599 65 @ [66])"
    by (simp flip: replicate_Suc)
  ultimately have "maximal_runs (replicate 600 65 @ [66 :: uchar]) = [(65, 600), (66, 1)]"
    by simp
  with rle_count_wraps [of "replicate 600 65 @ [66]"] show ?thesis
    by simp
qed

text \<open>
  Claim C2 asks that a run longer than 255 be split into several runs, 300 identical
  bytes giving the counts 255 and 45. The encoder has one counter per maximal run and
  never closes a run early: 300 identical bytes give the single pair with count
  \<open>300 mod 256 = 44\<close>.
\<close>

theorem rle_300_identical_bytes:
  "runLengthEncode (replicate 300 a) = [a, 44]
   \<and> runLengthEncode (replicate 300 a) \<noteq> [a, 255, a, 45]"
  by (simp add: runLengthEncode_runs maximal_runs_replicate)

section \<open>Properties of the frequency table\<close>

lemma foldl_freq_incr:
  "foldl freq_incr m data ch =
     (if ch \<in> set data
      then Some ((case m ch of None \<Rightarrow> 0 | Some n \<Rightarrow> n) + of_nat (count_list data ch))
      else m ch)"
  by (induction data arbitrary: m) (auto simp: freq_incr_def)

lemma count_frequencies_eq:
  "count_frequencies data ch =
     (if ch \<in> set data then Some (of_nat (count_list data ch)) else None)"
  by (simp add: count_frequencies_def foldl_freq_incr)

lemma dom_count_frequencies: "dom (count_frequencies data) = set data"
  by (auto simp: count_frequencies_eq dom_def)






section \<open>Degenerate queues\<close>

lemma iteration_order_set:
  "iteration_order freq entries \<Longrightarrow> fst ` set entries = dom freq"
  by (auto simp: iteration_order_def dom_map_of_conv_image_fst intro: rev_image_eqI)

lemma iteration_order_empty: "iteration_order Map.empty entries \<longleftrightarrow> entries = []"
  by (cases entries) (auto simp: iteration_order_def fun_eq_iff)

lemma iteration_order_single:
  assumes "iteration_order freq entries" and "dom freq = {a}"
  shows "entries = [(a, the (freq a))]"
proof -
  from assms have f: "fst ` set entries = {a}" by (simp add: iteration_order_set)
  from assms have d: "distinct (map fst entries)" and m: "map_of entries = freq"
    by (simp_all add: iteration_order_def)
  from f obtain p ps where e: "entries = p # ps" by (cases entries) auto
  with f have p: "fst p = a" by auto
  have "ps = []"
  proof (cases ps)
    case (Cons q qs)
    with e f have "fst q = a" by auto
    with e p Cons d show ?thesis by simp
  qed simp
  moreover from m e p have "freq a = Some (snd p)" by (cases p) auto
  ultimately show ?thesis using e p by (cases p) simp
qed

lemma merge_loop_empty: "merge_loop [] out \<longleftrightarrow> out = Inl EmptyQueueAccess"
proof
  assume "merge_loop [] out"
  then show "out = Inl EmptyQueueAccess"
    by (cases rule: merge_loop.cases) (auto simp: pq_top_def)
qed (auto intro: merge_loop.empty)

lemma merge_loop_single: "merge_loop [t] out \<longleftrightarrow> out = Inr t"
proof
  assume "merge_loop [t] out"
  then show "out = Inr t"
    by (cases rule: merge_loop.cases) auto
qed (auto intro: merge_loop.root)

lemma pack_loop_empty: "pack_loop [] 0 [] = Inr []"
  by (subst pack_loop.simps) simp

lemma count_frequencies_Nil: "count_frequencies [] = Map.empty"
  by (simp add: count_frequencies_def)

lemma buildHuffmanTree_Nil:
  "buildHuffmanTree [] huffmanCode r \<longleftrightarrow> r = Inl EmptyQueueAccess"
proof
  assume "buildHuffmanTree [] huffmanCode r"
  then show "r = Inl EmptyQueueAccess"
    by (cases rule: buildHuffmanTree.cases)
       (auto simp: count_frequencies_Nil iteration_order_empty merge_loop_empty)
next
  assume "r = Inl EmptyQueueAccess"
  moreover have "iteration_order (count_frequencies []) []"
    by (simp add: count_frequencies_Nil iteration_order_empty)
  moreover have "merge_loop (map leaf_of []) (Inl EmptyQueueAccess)"
    by (simp add: merge_loop_empty)
  ultimately show "buildHuffmanTree [] huffmanCode r"
    by (blast intro: buildHuffmanTree.failed)
qed

lemma huffmanEncode_Nil: "huffmanEncode [] r \<longleftrightarrow> r = Inl EmptyQueueAccess"
proof
  assume "huffmanEncode [] r"
  then show "r = Inl EmptyQueueAccess"
    by (cases rule: huffmanEncode.cases) (auto simp: buildHuffmanTree_Nil)
next
  assume "r = Inl EmptyQueueAccess"
  then show "huffmanEncode [] r"
    by (auto intro: huffmanEncode.failed simp: buildHuffmanTree_Nil)
qed

lemma iteration_order_one_symbol:
  assumes "set data = {a}"
  shows "iteration_order (count_frequencies data) entries \<longleftrightarrow>
    entries = [(a, of_nat (length data))]"
proof -
  have "set xs \<subseteq> {a} \<Longrightarrow> count_list xs a = length xs" for xs :: "uchar list"
    by (induction xs) auto
  with assms have c: "count_list data a = length data" by simp
  have f: "count_frequencies data = [a \<mapsto> of_nat (length data)]"
    using assms c by (auto simp: fun_eq_iff count_frequencies_eq)
  show ?thesis
  proof
    assume "iteration_order (count_frequencies data) entries"
    from iteration_order_single [OF this] assms f show "entries = [(a, of_nat (length data))]"
      by (simp add: dom_count_frequencies)
  next
    assume "entries = [(a, of_nat (length data))]"
    with f show "iteration_order (count_frequencies data) entries"
      by (auto simp: iteration_order_def fun_eq_iff)
  qed
qed

lemma buildHuffmanTree_one_symbol:
  assumes "set data = {a}"
  shows "buildHuffmanTree data huffmanCode r \<longleftrightarrow> r = Inr (huffmanCode(a \<mapsto> []))"
proof
  assume "buildHuffmanTree data huffmanCode r"
  then show "r = Inr (huffmanCode(a \<mapsto> []))"
    by (cases rule: buildHuffmanTree.cases)
       (auto simp: iteration_order_one_symbol [OF assms] merge_loop_single leaf_of_def)
next
  assume r: "r = Inr (huffmanCode(a \<mapsto> []))"
  have "iteration_order (count_frequencies data) [(a, of_nat (length data))]"
    by (simp add: iteration_order_one_symbol [OF assms])
  moreover have "merge_loop (map leaf_of [(a, of_nat (length data))])
      (Inr (Leaf a (of_nat (length data))))"
    by (simp add: merge_loop_single leaf_of_def)
  ultimately have "buildHuffmanTree data huffmanCode
      (Inr (encode (Leaf a (of_nat (length data))) [] huffmanCode))"
    by (rule buildHuffmanTree.built)
  with r show "buildHuffmanTree data huffmanCode r" by simp
qed

lemma encoded_string_concat:
  "encoded_string huffmanCode data = concat (map (code_of huffmanCode) data)"
proof -
  have "foldl (\<lambda>encodedStr ch. encodedStr @ code_of huffmanCode ch) acc data =
      acc @ concat (map (code_of huffmanCode) data)" for acc
    by (induction data arbitrary: acc) simp_all
  then show ?thesis by (simp add: encoded_string_def)
qed

lemma huffmanEncode_one_symbol:
  assumes "set data = {a}"
  shows "huffmanEncode data r \<longleftrightarrow> r = Inr []"
proof -
  have e: "encoded_string [a \<mapsto> []] data = []"
    using assms by (auto simp: encoded_string_concat code_of_def)
  show ?thesis
  proof
    assume "huffmanEncode data r"
    then show "r = Inr []"
      by (cases rule: huffmanEncode.cases)
         (auto simp: buildHuffmanTree_one_symbol [OF assms] e pack_loop_empty)
  next
    assume r: "r = Inr []"
    have "buildHuffmanTree data Map.empty (Inr [a \<mapsto> []])"
      by (simp add: buildHuffmanTree_one_symbol [OF assms])
    then have "huffmanEncode data (pack_loop (encoded_string [a \<mapsto> []] data) 0 [])"
      by (rule huffmanEncode.packed)
    with r e show "huffmanEncode data r" by (simp add: pack_loop_empty)
  qed
qed

section \<open>The code table\<close>

text \<open>
  \<open>paths\<close> lists the leaves of a tree from left to right, each with the string of
  branch characters leading to it; \<open>encode\<close> stores exactly these pairs.
  \<open>symbols\<close> is the set of byte values at the leaves. A code table is prefix-free
  when no code of one byte value is a prefix of the code of another.
\<close>

fun paths :: "HuffmanNode \<Rightarrow> string \<Rightarrow> (uchar \<times> string) list" where
  "paths (Leaf d f) str = [(d, str)]"
| "paths (Node d f l r) str = paths l (str @ ''0'') @ paths r (str @ ''1'')"

primrec symbols :: "HuffmanNode \<Rightarrow> uchar set" where
  "symbols (Leaf d f) = {d}"
| "symbols (Node d f l r) = symbols l \<union> symbols r"

definition prefix_free :: "(uchar \<rightharpoonup> string) \<Rightarrow> bool" where
  "prefix_free huffmanCode \<longleftrightarrow>
     (\<forall>a b ca cb. huffmanCode a = Some ca \<and> huffmanCode b = Some cb \<and> a \<noteq> b
        \<longrightarrow> \<not> prefix ca cb)"

lemma encode_fold:
  "encode t str huffmanCode = fold (\<lambda>(k, c) m. m(k \<mapsto> c)) (paths t str) huffmanCode"
  by (induction t arbitrary: str huffmanCode) simp_all

lemma fold_upd_Some:
  "fold (\<lambda>(k, c) m. m(k \<mapsto> c)) ps m0 k = Some c \<Longrightarrow> (k, c) \<in> set ps \<or> m0 k = Some c"
proof (induction ps arbitrary: m0)
  case Nil
  then show ?case by simp
next
  case (Cons p ps)
  obtain a b where p: "p = (a, b)" by (cases p)
  with Cons.prems have "fold (\<lambda>(k, c) m. m(k \<mapsto> c)) ps (m0(a \<mapsto> b)) k = Some c"
    by (simp del: fun_upd_apply)
  then have "(k, c) \<in> set ps \<or> (m0(a \<mapsto> b)) k = Some c" by (rule Cons.IH)
  with p show ?case by (auto split: if_splits)
qed

lemma dom_fold_upd:
  "dom (fold (\<lambda>(k, c) m. m(k \<mapsto> c)) ps m0) = dom m0 \<union> fst ` set ps"
  by (induction ps arbitrary: m0) auto

lemma fst_paths: "fst ` set (paths t str) = symbols t"
  by (induction t arbitrary: str) (simp_all add: image_Un)

lemma paths_extend: "(k, c) \<in> set (paths t str) \<Longrightarrow> prefix str c"
proof (induction t arbitrary: str)
  case (Leaf d f)
  then show ?case by simp
next
  case (Node d f l r)
  then have "prefix (str @ ''0'') c \<or> prefix (str @ ''1'') c" by auto
  then show ?case by (auto dest: append_prefixD)
qed

lemma siblings_incomparable:
  assumes "prefix (str @ ''0'') ca" and "prefix (str @ ''1'') cb"
  shows "\<not> prefix ca cb" and "\<not> prefix cb ca"
proof -
  from assms obtain x y where ca: "ca = str @ ''0'' @ x" and cb: "cb = str @ ''1'' @ y"
    by (auto simp: prefix_def)
  show "\<not> prefix ca cb" by (simp add: ca cb)
  show "\<not> prefix cb ca" by (simp add: ca cb)
qed

lemma paths_prefix_free:
  "(a, ca) \<in> set (paths t str) \<Longrightarrow> (b, cb) \<in> set (paths t str) \<Longrightarrow> a \<noteq> b \<Longrightarrow>
   \<not> prefix ca cb"
proof (induction t arbitrary: str)
  case (Leaf d f)
  then show ?case by simp
next
  case (Node d f l r)
  from Node.prems consider
      "(a, ca) \<in> set (paths l (str @ ''0''))" "(b, cb) \<in> set (paths l (str @ ''0''))"
    | "(a, ca) \<in> set (paths r (str @ ''1''))" "(b, cb) \<in> set (paths r (str @ ''1''))"
    | "(a, ca) \<in> set (paths l (str @ ''0''))" "(b, cb) \<in> set (paths r (str @ ''1''))"
    | "(a, ca) \<in> set (paths r (str @ ''1''))" "(b, cb) \<in> set (paths l (str @ ''0''))"
    by auto
  then show ?case
  proof cases
    case 1
    with Node.IH(1) Node.prems(3) show ?thesis by blast
  next
    case 2
    with Node.IH(2) Node.prems(3) show ?thesis by blast
  next
    case 3
    then show ?thesis by (blast dest: paths_extend siblings_incomparable)
  next
    case 4
    then show ?thesis by (blast dest: paths_extend siblings_incomparable)
  qed
qed

lemma encode_prefix_free: "prefix_free (encode t [] Map.empty)"
  unfolding prefix_free_def
proof (intro allI impI, elim conjE)
  fix a b ca cb
  assume "encode t [] Map.empty a = Some ca" and "encode t [] Map.empty b = Some cb"
    and ne: "a \<noteq> b"
  then have "(a, ca) \<in> set (paths t [])" and "(b, cb) \<in> set (paths t [])"
    using fold_upd_Some [of "paths t []" Map.empty] by (simp_all add: encode_fold)
  with ne show "\<not> prefix ca cb" by (rule paths_prefix_free [rotated 2])
qed

lemma dom_encode: "dom (encode t str huffmanCode) = dom huffmanCode \<union> symbols t"
  by (simp add: encode_fold dom_fold_upd fst_paths)

lemma pq_top_iff:
  "pq_top pq t \<longleftrightarrow> t \<in> set pq \<and> (\<forall>u \<in> set pq. sint (node_freq t) \<le> sint (node_freq u))"
  by (auto simp: pq_top_def HuffmanNodeCompare_def list_all_iff not_less)

lemma pq_top_exists: "pq \<noteq> [] \<Longrightarrow> \<exists>t. pq_top pq t"
proof (induction pq)
  case Nil
  then show ?case by simp
next
  case (Cons x xs)
  show ?case
  proof (cases "xs = []")
    case True
    then have "pq_top (x # xs) x" by (simp add: pq_top_iff)
    then show ?thesis ..
  next
    case False
    with Cons.IH obtain t where t: "pq_top xs t" by blast
    show ?thesis
    proof (cases "sint (node_freq x) \<le> sint (node_freq t)")
      case True
      with t have "pq_top (x # xs) x" by (fastforce simp: pq_top_iff)
      then show ?thesis ..
    next
      case False
      with t have "pq_top (x # xs) t" by (fastforce simp: pq_top_iff)
      then show ?thesis ..
    qed
  qed
qed

lemma UN_remove1:
  "x \<in> set xs \<Longrightarrow> (\<Union>t \<in> set xs. f t) = f x \<union> (\<Union>t \<in> set (remove1 x xs). f t)"
  by (induction xs) auto

lemma merge_loop_symbols:
  "merge_loop pq out \<Longrightarrow> out = Inr root \<Longrightarrow> symbols root = (\<Union>t \<in> set pq. symbols t)"
proof (induction arbitrary: root rule: merge_loop.induct)
  case (root t)
  then show ?case by simp
next
  case empty
  then show ?case by simp
next
  case (merge pq l r out)
  from merge.hyps(2) have l: "l \<in> set pq" by (simp add: pq_top_iff)
  from merge.hyps(3) have r: "r \<in> set (remove1 l pq)" by (simp add: pq_top_iff)
  have "symbols root =
      (\<Union>t \<in> set (Node 0 (node_freq l + node_freq r) l r # remove1 r (remove1 l pq)). symbols t)"
    using merge.IH merge.prems by simp
  also have "\<dots> = symbols l \<union> (symbols r \<union> (\<Union>t \<in> set (remove1 r (remove1 l pq)). symbols t))"
    by auto
  also have "\<dots> = symbols l \<union> (\<Union>t \<in> set (remove1 l pq). symbols t)"
    using UN_remove1 [OF r, of symbols] by simp
  also have "\<dots> = (\<Union>t \<in> set pq. symbols t)"
    using UN_remove1 [OF l, of symbols] by simp
  finally show ?case .
qed

lemma merge_loop_no_error:
  "merge_loop pq out \<Longrightarrow> pq \<noteq> [] \<Longrightarrow> \<exists>root. out = Inr root"
  by (induction rule: merge_loop.induct) auto

lemma merge_loop_total: "pq \<noteq> [] \<Longrightarrow> \<exists>root. merge_loop pq (Inr root)"
proof (induction "length pq" arbitrary: pq rule: less_induct)
  case less
  show ?case
  proof (cases "length pq = 1")
    case True
    then obtain t where "pq = [t]" by (cases pq) auto
    then show ?thesis by (auto intro: merge_loop.root)
  next
    case False
    from less.prems obtain l where l: "pq_top pq l" using pq_top_exists by blast
    then have lin: "l \<in> set pq" by (simp add: pq_top_iff)
    with False less.prems have ne: "remove1 l pq \<noteq> []"
      by (cases pq) (auto split: if_splits)
    then obtain r where r: "pq_top (remove1 l pq) r" using pq_top_exists by blast
    then have rin: "r \<in> set (remove1 l pq)" by (simp add: pq_top_iff)
    let ?pq' = "Node 0 (node_freq l + node_freq r) l r # remove1 r (remove1 l pq)"
    have "length (remove1 l pq) = length pq - 1"
      using lin by (simp add: length_remove1)
    moreover have "length (remove1 r (remove1 l pq)) = length (remove1 l pq) - 1"
      using rin by (simp add: length_remove1)
    moreover have "0 < length (remove1 l pq)" using ne by simp
    ultimately have "length ?pq' < length pq" by simp
    then obtain root where "merge_loop ?pq' (Inr root)" using less.hyps by blast
    with False l r have "merge_loop pq (Inr root)" by (rule merge_loop.merge)
    then show ?thesis ..
  qed
qed

lemma iteration_order_exists: "\<exists>entries. iteration_order (count_frequencies data) entries"
proof -
  let ?es = "map (\<lambda>k. (k, (of_nat (count_list data k) :: cint))) (remdups data)"
  have "map_of ?es = count_frequencies data"
    by (auto simp: fun_eq_iff count_frequencies_eq map_of_map_restrict restrict_map_def)
  moreover have "distinct (map fst ?es)" by (simp add: comp_def)
  ultimately show ?thesis unfolding iteration_order_def by blast
qed

lemma symbols_leaves:
  "iteration_order freq entries \<Longrightarrow> (\<Union>t \<in> set (map leaf_of entries). symbols t) = dom freq"
  using iteration_order_set [of freq entries] by (auto simp: leaf_of_def)

text \<open>
  Claim C7. For every non-empty input buffer the derived code table is prefix-free: no
  code assigned to one byte value is a prefix of the code assigned to a different byte
  value. Tree building ends with a table for a non-empty buffer, whatever the order in
  which the frequency table is traversed and however the queue resolves ties; every
  table it can end with has the bytes of the buffer as its keys and is prefix-free.
\<close>

theorem code_table_prefix_free:
  assumes "data \<noteq> []"
  shows "(\<exists>huffmanCode. buildHuffmanTree data Map.empty (Inr huffmanCode))
    \<and> (\<forall>r. buildHuffmanTree data Map.empty r \<longrightarrow>
          (\<exists>huffmanCode. r = Inr huffmanCode \<and> dom huffmanCode = set data
             \<and> prefix_free huffmanCode))"
proof (intro conjI allI impI)
  obtain entries where e: "iteration_order (count_frequencies data) entries"
    using iteration_order_exists by blast
  with assms have "entries \<noteq> []"
    using iteration_order_set [OF e] by (auto simp: dom_count_frequencies)
  then obtain root where "merge_loop (map leaf_of entries) (Inr root)"
    using merge_loop_total [of "map leaf_of entries"] by auto
  with e have "buildHuffmanTree data Map.empty (Inr (encode root [] Map.empty))"
    by (rule buildHuffmanTree.built)
  then show "\<exists>huffmanCode. buildHuffmanTree data Map.empty (Inr huffmanCode)" by blast
next
  fix r
  assume "buildHuffmanTree data Map.empty r"
  then show "\<exists>huffmanCode. r = Inr huffmanCode \<and> dom huffmanCode = set data
      \<and> prefix_free huffmanCode"
  proof (cases rule: buildHuffmanTree.cases)
    case (built entries root)
    from merge_loop_symbols [OF built(3) refl] symbols_leaves [OF built(2)]
    have "symbols root = set data" by (simp add: dom_count_frequencies)
    with built(1) show ?thesis by (simp add: dom_encode encode_prefix_free)
  next
    case (failed entries e)
    from assms iteration_order_set [OF failed(2)] have "map leaf_of entries \<noteq> []"
      by (auto simp: dom_count_frequencies)
    with merge_loop_no_error [OF failed(3)] show ?thesis by simp
  qed
qed

section \<open>The queue as a binary heap\<close>

text \<open>
  \<open>merge_loop\<close>, \<open>buildHuffmanTree\<close> and \<open>huffmanEncode\<close> above admit every behaviour the
  two library containers may show. \<^verbatim>\<open>std::priority_queue\<close> keeps its elements in a
  \<^verbatim>\<open>std::vector\<close>, arranged as a binary heap by \<^verbatim>\<open>std::push_heap\<close> and
  \<^verbatim>\<open>std::pop_heap\<close>; \<^verbatim>\<open>top()\<close> is the front of the vector. The library is not part of
  the repository; the functions of this section follow the heap of libstdc++
  (\<^verbatim>\<open>bits/stl_heap.h\<close>) loop by loop. With the order in which the frequency table is
  traversed given as the list \<open>keys\<close>, they compute what the source computes on that
  library, and that run is shown to be one of the runs of the relations above.
\<close>

subsection \<open>Sifting up\<close>

text \<open>
  \<^verbatim>\<open>
  __push_heap(first, holeIndex, topIndex, value, comp):
      parent = (holeIndex - 1) / 2;
      while (holeIndex > topIndex && comp(first + parent, value)) {
          *(first + holeIndex) = *(first + parent);
          holeIndex = parent;
          parent = (holeIndex - 1) / 2;
      }
      *(first + holeIndex) = value;
  \<close>
  The indices are signed in the library; \<open>(0 - 1) / 2\<close> is 0 there as it is for
  natural numbers, and the element at \<open>parent\<close> is read only when \<open>holeIndex > 0\<close>.
\<close>

function push_heap_loop ::
  "HuffmanNode list \<Rightarrow> nat \<Rightarrow> nat \<Rightarrow> HuffmanNode \<Rightarrow> HuffmanNode list" where
  "push_heap_loop c holeIndex topIndex v =
     (if holeIndex > topIndex \<and> HuffmanNodeCompare (c ! ((holeIndex - 1) div 2)) v
      then push_heap_loop (c[holeIndex := c ! ((holeIndex - 1) div 2)])
             ((holeIndex - 1) div 2) topIndex v
      else c[holeIndex := v])"
  by pat_completeness auto
termination
  by (relation "measure (\<lambda>(c, holeIndex, topIndex, v). holeIndex)") auto

declare push_heap_loop.simps [simp del]

subsection \<open>Sifting down\<close>

text \<open>
  \<^verbatim>\<open>
  __adjust_heap(first, holeIndex, len, value, comp):
      topIndex = holeIndex;
      secondChild = holeIndex;
      while (secondChild < (len - 1) / 2) {
          secondChild = 2 * (secondChild + 1);
          if (comp(first + secondChild, first + (secondChild - 1)))
              secondChild--;
          *(first + holeIndex) = *(first + secondChild);
          holeIndex = secondChild;
      }
      if ((len & 1) == 0 && secondChild == (len - 2) / 2) {
          secondChild = 2 * (secondChild + 1);
          *(first + holeIndex) = *(first + (secondChild - 1));
          holeIndex = secondChild - 1;
      }
      __push_heap(first, holeIndex, topIndex, value, comp);
  \<close>
  \<open>second_child\<close> is the choice between the two children made in the loop body. With
  signed indices \<open>(len - 2) / 2\<close> is negative for \<open>len = 0\<close>, where the test after the
  loop fails; on natural numbers the same is said by \<open>2 \<le> len\<close>.
\<close>

definition second_child :: "HuffmanNode list \<Rightarrow> nat \<Rightarrow> nat" where
  "second_child c secondChild =
     (if HuffmanNodeCompare (c ! (2 * (secondChild + 1))) (c ! (2 * (secondChild + 1) - 1))
      then 2 * (secondChild + 1) - 1 else 2 * (secondChild + 1))"

function adjust_loop ::
  "HuffmanNode list \<Rightarrow> nat \<Rightarrow> nat \<Rightarrow> nat \<Rightarrow> HuffmanNode list \<times> nat \<times> nat" where
  "adjust_loop c holeIndex secondChild len =
     (if secondChild < (len - 1) div 2
      then adjust_loop (c[holeIndex := c ! second_child c secondChild])
             (second_child c secondChild) (second_child c secondChild) len
      else (c, holeIndex, secondChild))"
  by pat_completeness auto
termination
  by (relation "measure (\<lambda>(c, holeIndex, secondChild, len). len - secondChild)")
     (auto simp: second_child_def)

declare adjust_loop.simps [simp del]

definition adjust_heap ::
  "HuffmanNode list \<Rightarrow> nat \<Rightarrow> nat \<Rightarrow> HuffmanNode \<Rightarrow> HuffmanNode list" where
  "adjust_heap c holeIndex len v =
     (case adjust_loop c holeIndex holeIndex len of
        (c1, holeIndex1, secondChild1) \<Rightarrow>
          if even len \<and> 2 \<le> len \<and> secondChild1 = (len - 2) div 2
          then push_heap_loop (c1[holeIndex1 := c1 ! (2 * (secondChild1 + 1) - 1)])
                 (2 * (secondChild1 + 1) - 1) holeIndex v
          else push_heap_loop c1 holeIndex1 holeIndex v)"

subsection \<open>The queue operations\<close>

text \<open>
  \<^verbatim>\<open>push(x)\<close> is \<^verbatim>\<open>c.push_back(x); std::push_heap(c.begin(), c.end(), comp)\<close>, the
  latter being \<^verbatim>\<open>__push_heap(first, len - 1, 0, x)\<close>. \<^verbatim>\<open>pop()\<close> is
  \<^verbatim>\<open>std::pop_heap(c.begin(), c.end(), comp); c.pop_back()\<close>, where \<^verbatim>\<open>pop_heap\<close>, for more
  than one element, saves the last element, stores the first in its place and calls
  \<^verbatim>\<open>__adjust_heap(first, 0, len - 1, saved)\<close>. \<^verbatim>\<open>top()\<close> is \<^verbatim>\<open>c.front()\<close>, which has no
  defined result on an empty vector.
\<close>

definition heap_push :: "HuffmanNode list \<Rightarrow> HuffmanNode \<Rightarrow> HuffmanNode list" where
  "heap_push c x = push_heap_loop (c @ [x]) (length c) 0 x"

definition heap_pop :: "HuffmanNode list \<Rightarrow> HuffmanNode list" where
  "heap_pop c =
     (if length c > 1
      then butlast (adjust_heap (c[length c - 1 := c ! 0]) 0 (length c - 1) (last c))
      else butlast c)"

definition heap_top :: "HuffmanNode list \<Rightarrow> error + HuffmanNode" where
  "heap_top c = (case c of [] \<Rightarrow> Inl EmptyQueueAccess | x # _ \<Rightarrow> Inr x)"

lemma length_push_heap_loop [simp]: "length (push_heap_loop c h t v) = length c"
  by (induction c h t v rule: push_heap_loop.induct)
     (subst push_heap_loop.simps, auto)

lemma length_adjust_loop [simp]: "length (fst (adjust_loop c h s len)) = length c"
  by (induction c h s len rule: adjust_loop.induct)
     (subst adjust_loop.simps, auto)

lemma length_adjust_heap [simp]: "length (adjust_heap c h len v) = length c"
proof -
  obtain c1 h1 s1 where r: "adjust_loop c h h len = (c1, h1, s1)"
    by (cases "adjust_loop c h h len") auto
  then have "length c1 = length c" using length_adjust_loop [of c h h len] by simp
  with r show ?thesis by (simp add: adjust_heap_def)
qed

lemma length_heap_push [simp]: "length (heap_push c x) = Suc (length c)"
  by (simp add: heap_push_def)

lemma length_heap_pop [simp]: "length (heap_pop c) = length c - 1"
  by (simp add: heap_pop_def)

lemma heap_top_Inr: "heap_top c = Inr x \<Longrightarrow> c \<noteq> [] \<and> x = c ! 0"
  by (cases c) (auto simp: heap_top_def)

subsection \<open>The merge loop and the two functions on this queue\<close>

text \<open>
  The loop of \<^verbatim>\<open>buildHuffmanTree\<close>, and \<^verbatim>\<open>buildHuffmanTree\<close> and \<^verbatim>\<open>huffmanEncode\<close>
  themselves, with the queue operations above. The leaves are pushed in the order
  \<open>keys\<close>.
\<close>

function merge_heap :: "HuffmanNode list \<Rightarrow> error + HuffmanNode" where
  "merge_heap pq =
     (if length pq = 1 then heap_top pq
      else (case heap_top pq of
              Inl e \<Rightarrow> Inl e
            | Inr left \<Rightarrow>
                (case heap_top (heap_pop pq) of
                   Inl e \<Rightarrow> Inl e
                 | Inr right \<Rightarrow>
                     merge_heap
                       (heap_push (heap_pop (heap_pop pq))
                          (Node 0 (node_freq left + node_freq right) left right)))))"
  by pat_completeness auto
termination
proof (relation "measure length")
  show "wf (measure length)" by simp
next
  fix pq :: "HuffmanNode list" and left right
  assume "heap_top pq = Inr left" and "heap_top (heap_pop pq) = Inr right"
  then have "pq \<noteq> []" and "heap_pop pq \<noteq> []" by (auto dest: heap_top_Inr)
  then have "length (heap_pop pq) \<noteq> 0" by (simp del: length_heap_pop)
  then have "length pq - 1 \<noteq> 0" unfolding length_heap_pop .
  then have "2 \<le> length pq" by simp
  then show "(heap_push (heap_pop (heap_pop pq))
        (Node 0 (node_freq left + node_freq right) left right), pq) \<in> measure length"
    by simp
qed

declare merge_heap.simps [simp del]

definition buildHuffmanTree_heap ::
  "uchar list \<Rightarrow> uchar list \<Rightarrow> (uchar \<rightharpoonup> string) \<Rightarrow> error + (uchar \<rightharpoonup> string)" where
  "buildHuffmanTree_heap keys data huffmanCode =
     (let freq = count_frequencies data;
          entries = map (\<lambda>k. (k, case freq k of None \<Rightarrow> 0 | Some n \<Rightarrow> n)) keys;
          pq = foldl (\<lambda>pq pair. heap_push pq (leaf_of pair)) [] entries
      in case merge_heap pq of
           Inl e \<Rightarrow> Inl e
         | Inr root \<Rightarrow> Inr (encode root [] huffmanCode))"

definition huffmanEncode_heap :: "uchar list \<Rightarrow> uchar list \<Rightarrow> error + uchar list" where
  "huffmanEncode_heap keys data =
     (case buildHuffmanTree_heap keys data Map.empty of
        Inl e \<Rightarrow> Inl e
      | Inr huffmanCode \<Rightarrow> pack_loop (encoded_string huffmanCode data) 0 [])"

subsection \<open>The heap run is a run of the relations\<close>

text \<open>
  \<open>heap_upto len c\<close> says that the first \<open>len\<close> elements of \<open>c\<close> form a heap: no
  element has a smaller \<open>freq\<close> than its parent. While an element is sifted, one
  position is a hole; \<open>hole_heap\<close> is the heap property around the hole and
  \<open>below_children\<close> says that the element to be placed may stand above the children of
  the hole.
\<close>

definition key :: "HuffmanNode \<Rightarrow> int" where
  "key x = sint (node_freq x)"

definition parent :: "nat \<Rightarrow> nat" where
  "parent i = (i - 1) div 2"

lemma not_compare: "\<not> HuffmanNodeCompare a b \<longleftrightarrow> key a \<le> key b"
  by (auto simp: HuffmanNodeCompare_def key_def)

lemma parent_less: "0 < i \<Longrightarrow> parent i < i"
  by (simp add: parent_def)

lemma parent_child_iff: "0 < j \<Longrightarrow> parent j = s \<longleftrightarrow> j = 2 * s + 1 \<or> j = 2 * s + 2"
  unfolding parent_def by presburger

definition heap_upto :: "nat \<Rightarrow> HuffmanNode list \<Rightarrow> bool" where
  "heap_upto len c \<longleftrightarrow> (\<forall>i. 0 < i \<and> i < len \<longrightarrow> key (c ! parent i) \<le> key (c ! i))"

definition hole_heap :: "nat \<Rightarrow> nat \<Rightarrow> HuffmanNode list \<Rightarrow> bool" where
  "hole_heap len h c \<longleftrightarrow>
     (\<forall>i. 0 < i \<and> i < len \<and> i \<noteq> h \<and> parent i \<noteq> h \<longrightarrow> key (c ! parent i) \<le> key (c ! i)) \<and>
     (\<forall>j. 0 < h \<and> 0 < j \<and> j < len \<and> parent j = h \<longrightarrow> key (c ! parent h) \<le> key (c ! j))"

definition below_children :: "nat \<Rightarrow> nat \<Rightarrow> HuffmanNode list \<Rightarrow> HuffmanNode \<Rightarrow> bool" where
  "below_children len h c v \<longleftrightarrow> (\<forall>j. 0 < j \<and> j < len \<and> parent j = h \<longrightarrow> key v \<le> key (c ! j))"

lemma hole_heapD1:
  "hole_heap len h c \<Longrightarrow> 0 < i \<Longrightarrow> i < len \<Longrightarrow> i \<noteq> h \<Longrightarrow> parent i \<noteq> h \<Longrightarrow>
   key (c ! parent i) \<le> key (c ! i)"
  by (simp add: hole_heap_def)

lemma hole_heapD2:
  "hole_heap len h c \<Longrightarrow> 0 < h \<Longrightarrow> 0 < j \<Longrightarrow> j < len \<Longrightarrow> parent j = h \<Longrightarrow>
   key (c ! parent h) \<le> key (c ! j)"
  by (simp add: hole_heap_def)

lemma below_childrenD:
  "below_children len h c v \<Longrightarrow> 0 < j \<Longrightarrow> j < len \<Longrightarrow> parent j = h \<Longrightarrow> key v \<le> key (c ! j)"
  by (simp add: below_children_def)

lemma hole_moves_up:
  assumes h: "0 < h" "h < len" "len \<le> length c"
    and hh: "hole_heap len h c"
  shows "hole_heap len (parent h) (c[h := c ! parent h])"
  unfolding hole_heap_def
proof (intro conjI allI impI)
  let ?p = "parent h" and ?c = "c[h := c ! parent h]"
  have ph: "?p < h" using h(1) by (rule parent_less)
  {
    fix i
    assume a: "0 < i \<and> i < len \<and> i \<noteq> ?p \<and> parent i \<noteq> ?p"
    then have ih: "i \<noteq> h" by auto
    show "key (?c ! parent i) \<le> key (?c ! i)"
    proof (cases "parent i = h")
      case True
      with a h hh have "key (c ! ?p) \<le> key (c ! i)" by (auto intro: hole_heapD2)
      with True ih h show ?thesis by simp
    next
      case False
      with a ih hh have "key (c ! parent i) \<le> key (c ! i)" by (auto intro: hole_heapD1)
      with False ih show ?thesis by simp
    qed
  }
  {
    fix j
    assume a: "0 < ?p \<and> 0 < j \<and> j < len \<and> parent j = ?p"
    have pp: "parent ?p < ?p" using a by (simp add: parent_less)
    with ph have ne: "parent ?p \<noteq> h" "?p \<noteq> h" by auto
    from a ph h ne hh have top: "key (c ! parent ?p) \<le> key (c ! ?p)"
      by (intro hole_heapD1 [of len h c ?p]) auto
    show "key (?c ! parent ?p) \<le> key (?c ! j)"
    proof (cases "j = h")
      case True
      with top ne h show ?thesis by simp
    next
      case False
      with a ne hh have "key (c ! ?p) \<le> key (c ! j)"
        using hole_heapD1 [of len h c j] by auto
      with top False ne show ?thesis by simp
    qed
  }
qed

lemma below_moves_up:
  assumes h: "0 < h" "h < len" "len \<le> length c"
    and hh: "hole_heap len h c"
    and lt: "key v < key (c ! parent h)"
  shows "below_children len (parent h) (c[h := c ! parent h]) v"
  unfolding below_children_def
proof (intro allI impI)
  fix j
  let ?p = "parent h"
  assume a: "0 < j \<and> j < len \<and> parent j = ?p"
  have ph: "?p < h" using h(1) by (rule parent_less)
  show "key v \<le> key (c[h := c ! ?p] ! j)"
  proof (cases "j = h")
    case True
    with lt h show ?thesis by simp
  next
    case False
    with a ph hh have "key (c ! ?p) \<le> key (c ! j)"
      using hole_heapD1 [of len h c j] by auto
    with lt False show ?thesis by simp
  qed
qed

lemma hole_filled:
  assumes h: "h < len" "len \<le> length c"
    and hh: "hole_heap len h c"
    and bc: "below_children len h c v"
    and up: "0 < h \<longrightarrow> key (c ! parent h) \<le> key v"
  shows "heap_upto len (c[h := v])"
  unfolding heap_upto_def
proof (intro allI impI)
  fix i
  assume a: "0 < i \<and> i < len"
  show "key (c[h := v] ! parent i) \<le> key (c[h := v] ! i)"
  proof (cases "i = h")
    case True
    with a have "parent h \<noteq> h" using parent_less [of h] by auto
    with True a up h show ?thesis by simp
  next
    case ih: False
    show ?thesis
    proof (cases "parent i = h")
      case True
      with a bc have "key v \<le> key (c ! i)" by (auto intro: below_childrenD)
      with True ih h show ?thesis by simp
    next
      case False
      with a ih hh have "key (c ! parent i) \<le> key (c ! i)" by (auto intro: hole_heapD1)
      with False ih show ?thesis by simp
    qed
  qed
qed

lemma push_heap_loop_heap:
  "h < len \<Longrightarrow> len \<le> length c \<Longrightarrow> hole_heap len h c \<Longrightarrow> below_children len h c v \<Longrightarrow>
   t = 0 \<Longrightarrow> heap_upto len (push_heap_loop c h t v)"
proof (induction c h t v rule: push_heap_loop.induct)
  case (1 c h t v)
  show ?case
  proof (cases "h > t \<and> HuffmanNodeCompare (c ! ((h - 1) div 2)) v")
    case True
    then have h0: "0 < h" and lt: "key v < key (c ! parent h)"
      by (auto simp: HuffmanNodeCompare_def key_def parent_def)
    have ph: "parent h < h" using h0 by (rule parent_less)
    have "heap_upto len (push_heap_loop (c[h := c ! ((h - 1) div 2)]) ((h - 1) div 2) t v)"
    proof (rule "1.IH" [OF True])
      show "(h - 1) div 2 < len" using ph "1.prems"(1) by (simp add: parent_def)
      show "len \<le> length (c[h := c ! ((h - 1) div 2)])" using "1.prems"(2) by simp
      show "hole_heap len ((h - 1) div 2) (c[h := c ! ((h - 1) div 2)])"
        using hole_moves_up [OF h0 "1.prems"(1,2,3)] by (simp add: parent_def)
      show "below_children len ((h - 1) div 2) (c[h := c ! ((h - 1) div 2)]) v"
        using below_moves_up [OF h0 "1.prems"(1,2,3) lt] by (simp add: parent_def)
      show "t = 0" by (rule "1.prems"(5))
    qed
    moreover have "push_heap_loop c h t v =
        push_heap_loop (c[h := c ! ((h - 1) div 2)]) ((h - 1) div 2) t v"
      using True by (subst push_heap_loop.simps) auto
    ultimately show ?thesis by simp
  next
    case False
    with "1.prems"(5) have "0 < h \<longrightarrow> key (c ! parent h) \<le> key v"
      by (auto simp: not_compare parent_def)
    with "1.prems" have "heap_upto len (c[h := v])" by (intro hole_filled) auto
    moreover have "push_heap_loop c h t v = c[h := v]"
      using False by (subst push_heap_loop.simps) auto
    ultimately show ?thesis by simp
  qed
qed

lemma mset_hole_move:
  assumes "h < length c" and "m < length c"
  shows "mset (c[h := c ! m, m := v]) = mset (c[h := v])"
proof (cases "h = m")
  case True
  then show ?thesis by simp
next
  case False
  from assms have "mset ((c[h := v])[h := (c[h := v]) ! m, m := (c[h := v]) ! h]) =
      mset (c[h := v])"
    by (intro mset_swap) simp_all
  with False assms show ?thesis by simp
qed

lemma push_heap_loop_mset:
  "h < length c \<Longrightarrow> mset (push_heap_loop c h t v) = mset (c[h := v])"
proof (induction c h t v rule: push_heap_loop.induct)
  case (1 c h t v)
  show ?case
  proof (cases "h > t \<and> HuffmanNodeCompare (c ! ((h - 1) div 2)) v")
    case True
    let ?p = "(h - 1) div 2"
    have p: "?p < length c" using "1.prems" by simp
    have "mset (push_heap_loop (c[h := c ! ?p]) ?p t v) = mset (c[h := c ! ?p, ?p := v])"
      using "1.IH" [OF True] p by simp
    also have "\<dots> = mset (c[h := v])" using "1.prems" p by (rule mset_hole_move)
    finally have "mset (push_heap_loop (c[h := c ! ?p]) ?p t v) = mset (c[h := v])" .
    moreover have "push_heap_loop c h t v = push_heap_loop (c[h := c ! ?p]) ?p t v"
      using True by (subst push_heap_loop.simps) auto
    ultimately show ?thesis by simp
  next
    case False
    then have "push_heap_loop c h t v = c[h := v]"
      by (subst push_heap_loop.simps) auto
    then show ?thesis by simp
  qed
qed

lemma push_heap_loop_nth:
  "h < len \<Longrightarrow> len \<le> i \<Longrightarrow> push_heap_loop c h t v ! i = c ! i"
proof (induction c h t v rule: push_heap_loop.induct)
  case (1 c h t v)
  show ?case
  proof (cases "h > t \<and> HuffmanNodeCompare (c ! ((h - 1) div 2)) v")
    case True
    let ?p = "(h - 1) div 2"
    have "?p < len" using "1.prems"(1) by simp
    then have "push_heap_loop (c[h := c ! ?p]) ?p t v ! i = (c[h := c ! ?p]) ! i"
      using "1.IH" [OF True] "1.prems"(2) by simp
    moreover have "push_heap_loop c h t v = push_heap_loop (c[h := c ! ?p]) ?p t v"
      using True by (subst push_heap_loop.simps) auto
    ultimately show ?thesis using "1.prems" by simp
  next
    case False
    then have "push_heap_loop c h t v = c[h := v]"
      by (subst push_heap_loop.simps) auto
    with "1.prems" show ?thesis by simp
  qed
qed

lemma second_child_cases:
  "second_child c s = 2 * s + 1 \<or> second_child c s = 2 * s + 2"
  by (simp add: second_child_def)

lemma second_child_least:
  "key (c ! second_child c s) \<le> key (c ! (2 * s + 1))"
  "key (c ! second_child c s) \<le> key (c ! (2 * s + 2))"
  by (auto simp: second_child_def HuffmanNodeCompare_def key_def)

lemma hole_moves_down:
  assumes h: "h < len" "len \<le> length c"
    and hh: "hole_heap len h c"
    and m: "0 < m" "m < len" "parent m = h"
    and least: "\<And>j. 0 < j \<Longrightarrow> j < len \<Longrightarrow> parent j = h \<Longrightarrow> key (c ! m) \<le> key (c ! j)"
  shows "hole_heap len m (c[h := c ! m])"
  unfolding hole_heap_def
proof (intro conjI allI impI)
  have hm: "h < m" using m parent_less [of m] by simp
  {
    fix i
    assume a: "0 < i \<and> i < len \<and> i \<noteq> m \<and> parent i \<noteq> m"
    show "key (c[h := c ! m] ! parent i) \<le> key (c[h := c ! m] ! i)"
    proof (cases "i = h")
      case True
      with a have ph: "parent h \<noteq> h" using parent_less [of h] by auto
      from a True hh m have "key (c ! parent h) \<le> key (c ! m)"
        by (intro hole_heapD2 [of len h c m]) auto
      with True ph h show ?thesis by simp
    next
      case ih: False
      show ?thesis
      proof (cases "parent i = h")
        case True
        with a have "key (c ! m) \<le> key (c ! i)" by (intro least) auto
        with True ih h show ?thesis by simp
      next
        case False
        with a ih hh have "key (c ! parent i) \<le> key (c ! i)" by (auto intro: hole_heapD1)
        with False ih show ?thesis by simp
      qed
    qed
  }
  {
    fix j
    assume a: "0 < m \<and> 0 < j \<and> j < len \<and> parent j = m"
    then have mj: "m < j" using parent_less [of j] by auto
    with hm have jh: "j \<noteq> h" by simp
    from a jh hm hh have "key (c ! m) \<le> key (c ! j)"
      using hole_heapD1 [of len h c j] by auto
    with jh m h show "key (c[h := c ! m] ! parent m) \<le> key (c[h := c ! m] ! j)" by simp
  }
qed

lemma adjust_loop_inv:
  "adjust_loop c h s len = (c1, h1, s1) \<Longrightarrow> s = h \<Longrightarrow> h < len \<Longrightarrow> len \<le> length c \<Longrightarrow>
   hole_heap len h c \<Longrightarrow>
   h1 = s1 \<and> h1 < len \<and> \<not> s1 < (len - 1) div 2 \<and> hole_heap len h1 c1 \<and> length c1 = length c
   \<and> mset (c1[h1 := v]) = mset (c[h := v]) \<and> (\<forall>i \<ge> len. c1 ! i = c ! i)"
proof (induction c h s len arbitrary: c1 h1 s1 rule: adjust_loop.induct)
  case (1 c h s len)
  show ?case
  proof (cases "s < (len - 1) div 2")
    case False
    with "1.prems"(1) have "c1 = c" "h1 = h" "s1 = s"
      by (subst (asm) adjust_loop.simps, simp)+
    with False "1.prems" show ?thesis by simp
  next
    case True
    let ?m = "second_child c s"
    have m12: "?m = 2 * s + 1 \<or> ?m = 2 * s + 2" by (rule second_child_cases)
    from True have r: "2 * s + 2 < len" by linarith
    with m12 have m: "0 < ?m" "?m < len" by auto
    from m12 have pm: "parent ?m = h" using "1.prems"(2) by (auto simp: parent_def)
    have least: "key (c ! ?m) \<le> key (c ! j)" if "0 < j" "j < len" "parent j = h" for j
    proof -
      from that "1.prems"(2) have "j = 2 * s + 1 \<or> j = 2 * s + 2"
        by (simp add: parent_child_iff)
      then show ?thesis using second_child_least [of c s] by auto
    qed
    have hh': "hole_heap len ?m (c[h := c ! ?m])"
      using "1.prems"(3,4,5) m pm least by (rule hole_moves_down)
    have rec: "adjust_loop (c[h := c ! ?m]) ?m ?m len = (c1, h1, s1)"
      using "1.prems"(1) True by (subst (asm) adjust_loop.simps) simp
    have ih: "h1 = s1 \<and> h1 < len \<and> \<not> s1 < (len - 1) div 2 \<and> hole_heap len h1 c1
        \<and> length c1 = length (c[h := c ! ?m])
        \<and> mset (c1[h1 := v]) = mset (c[h := c ! ?m, ?m := v])
        \<and> (\<forall>i \<ge> len. c1 ! i = (c[h := c ! ?m]) ! i)"
    proof (rule "1.IH" [OF True rec refl m(2) _ hh'])
      show "len \<le> length (c[h := c ! ?m])" using "1.prems"(4) by simp
    qed
    have "mset (c[h := c ! ?m, ?m := v]) = mset (c[h := v])"
      using "1.prems"(3,4) m(2) by (intro mset_hole_move) auto
    moreover have "\<forall>i \<ge> len. (c[h := c ! ?m]) ! i = c ! i"
      using "1.prems"(3) by simp
    ultimately show ?thesis using ih by auto
  qed
qed

lemma last_child_index:
  fixes len :: nat
  assumes "even len" and "2 \<le> len"
  shows "2 * ((len - 2) div 2 + 1) - 1 = len - 1"
proof -
  from assms obtain k where "len = 2 * k" by (elim evenE)
  with assms(2) show ?thesis by (cases k) simp_all
qed

lemma no_child_left:
  fixes len s :: nat
  assumes "\<not> s < (len - 1) div 2" and "\<not> (even len \<and> 2 \<le> len \<and> s = (len - 2) div 2)"
  shows "len \<le> 2 * s + 1"
proof (cases "even len")
  case True
  then obtain k where k: "len = 2 * k" by (elim evenE)
  show ?thesis
  proof (cases k)
    case 0
    with k show ?thesis by simp
  next
    case (Suc k')
    with k have "(len - 1) div 2 = k'" and "(len - 2) div 2 = k'" by simp_all
    with assms True k Suc show ?thesis by auto
  qed
next
  case False
  then obtain k where k: "len = 2 * k + 1" by (elim oddE)
  then have "(len - 1) div 2 = k" by simp
  with assms(1) k show ?thesis by simp
qed

lemma adjust_heap_heap:
  assumes len: "0 < len" "len \<le> length c" and hh0: "hole_heap len 0 c"
  shows "heap_upto len (adjust_heap c 0 len v)"
    and "mset (adjust_heap c 0 len v) = mset (c[0 := v])"
    and "\<And>i. len \<le> i \<Longrightarrow> adjust_heap c 0 len v ! i = c ! i"
proof -
  obtain c1 h1 s1 where r: "adjust_loop c 0 0 len = (c1, h1, s1)"
    by (cases "adjust_loop c 0 0 len") auto
  from adjust_loop_inv [OF r refl len hh0, of v]
  have e: "h1 = s1" and h1: "h1 < len" and ex: "\<not> s1 < (len - 1) div 2"
    and hh: "hole_heap len h1 c1" and l: "length c1 = length c"
    and ms: "mset (c1[h1 := v]) = mset (c[0 := v])" and nth: "\<forall>i \<ge> len. c1 ! i = c ! i"
    by auto
  have len1: "len \<le> length c1" using len l by simp
  show "heap_upto len (adjust_heap c 0 len v)"
    and "mset (adjust_heap c 0 len v) = mset (c[0 := v])"
    and "\<And>i. len \<le> i \<Longrightarrow> adjust_heap c 0 len v ! i = c ! i"
  proof (atomize (full), cases "even len \<and> 2 \<le> len \<and> s1 = (len - 2) div 2")
    case True
    let ?l = "2 * (s1 + 1) - 1"
    let ?c = "c1[h1 := c1 ! ?l]"
    have ll: "?l = len - 1" using True last_child_index [of len] by simp
    have l0: "0 < ?l" and llen: "?l < len" using True by auto
    have pl: "parent ?l = h1" using e by (simp add: parent_def)
    have a: "adjust_heap c 0 len v = push_heap_loop ?c ?l 0 v"
      using r True by (simp add: adjust_heap_def)
    have least: "key (c1 ! ?l) \<le> key (c1 ! j)" if "0 < j" "j < len" "parent j = h1" for j
    proof -
      from that e have "j = 2 * s1 + 1 \<or> j = 2 * s1 + 2"
        using parent_child_iff [of j s1] by blast
      with that(2) ll have "j = ?l" by auto
      then show ?thesis by simp
    qed
    have hh': "hole_heap len ?l ?c"
      using h1 len1 hh l0 llen pl least by (rule hole_moves_down)
    have bc: "below_children len ?l ?c v"
      unfolding below_children_def
    proof (intro allI impI)
      fix j
      assume j: "0 < j \<and> j < len \<and> parent j = ?l"
      then have "j = 2 * ?l + 1 \<or> j = 2 * ?l + 2"
        using parent_child_iff [of j ?l] by blast
      then have "2 * ?l + 1 \<le> j" by auto
      with j ll True have False by linarith
      then show "key v \<le> key (?c ! j)" ..
    qed
    have 1: "heap_upto len (push_heap_loop ?c ?l 0 v)"
      using llen _ hh' bc refl by (rule push_heap_loop_heap) (use len1 in simp)
    have "mset (push_heap_loop ?c ?l 0 v) = mset (?c[?l := v])"
      using llen len1 by (intro push_heap_loop_mset) simp
    also have "\<dots> = mset (c1[h1 := v])"
      using h1 llen len1 by (intro mset_hole_move) auto
    finally have 2: "mset (push_heap_loop ?c ?l 0 v) = mset (c[0 := v])" using ms by simp
    have 3: "push_heap_loop ?c ?l 0 v ! i = c ! i" if "len \<le> i" for i
    proof -
      have "push_heap_loop ?c ?l 0 v ! i = ?c ! i" using llen that by (rule push_heap_loop_nth)
      with that h1 nth show ?thesis by simp
    qed
    from 1 2 3 show "heap_upto len (adjust_heap c 0 len v)
        \<and> mset (adjust_heap c 0 len v) = mset (c[0 := v])
        \<and> (\<forall>i. len \<le> i \<longrightarrow> adjust_heap c 0 len v ! i = c ! i)"
      unfolding a by blast
  next
    case False
    have a: "adjust_heap c 0 len v = push_heap_loop c1 h1 0 v"
      using r False by (auto simp: adjust_heap_def)
    have none: "len \<le> 2 * s1 + 1" using ex False by (rule no_child_left)
    have bc: "below_children len h1 c1 v"
      unfolding below_children_def
    proof (intro allI impI)
      fix j
      assume j: "0 < j \<and> j < len \<and> parent j = h1"
      then have "j = 2 * h1 + 1 \<or> j = 2 * h1 + 2"
        using parent_child_iff [of j h1] by blast
      then have "2 * h1 + 1 \<le> j" by auto
      with j none e have False by linarith
      then show "key v \<le> key (c1 ! j)" ..
    qed
    have 1: "heap_upto len (push_heap_loop c1 h1 0 v)"
      using h1 len1 hh bc refl by (rule push_heap_loop_heap)
    have 2: "mset (push_heap_loop c1 h1 0 v) = mset (c[0 := v])"
      using push_heap_loop_mset [of h1 c1 0 v] h1 len1 ms by simp
    have 3: "push_heap_loop c1 h1 0 v ! i = c ! i" if "len \<le> i" for i
      using push_heap_loop_nth [OF h1 that, of c1 0 v] nth that by simp
    from 1 2 3 show "heap_upto len (adjust_heap c 0 len v)
        \<and> mset (adjust_heap c 0 len v) = mset (c[0 := v])
        \<and> (\<forall>i. len \<le> i \<longrightarrow> adjust_heap c 0 len v ! i = c ! i)"
      unfolding a by blast
  qed
qed

lemma heap_push_heap:
  assumes "heap_upto (length c) c"
  shows "heap_upto (length (heap_push c x)) (heap_push c x)"
    and "mset (heap_push c x) = mset c + {#x#}"
proof -
  let ?n = "length c"
  have hh: "hole_heap (Suc ?n) ?n (c @ [x])"
    unfolding hole_heap_def
  proof (intro conjI allI impI)
    fix i
    assume a: "0 < i \<and> i < Suc ?n \<and> i \<noteq> ?n \<and> parent i \<noteq> ?n"
    then have "i < ?n" and "parent i < ?n" using parent_less [of i] by auto
    with a assms show "key ((c @ [x]) ! parent i) \<le> key ((c @ [x]) ! i)"
      by (simp add: nth_append heap_upto_def)
  next
    fix j
    assume "0 < ?n \<and> 0 < j \<and> j < Suc ?n \<and> parent j = ?n"
    then have False using parent_less [of j] by auto
    then show "key ((c @ [x]) ! parent ?n) \<le> key ((c @ [x]) ! j)" ..
  qed
  have bc: "below_children (Suc ?n) ?n (c @ [x]) x"
    unfolding below_children_def
  proof (intro allI impI)
    fix j
    assume "0 < j \<and> j < Suc ?n \<and> parent j = ?n"
    then have False using parent_less [of j] by auto
    then show "key x \<le> key ((c @ [x]) ! j)" ..
  qed
  have "heap_upto (Suc ?n) (push_heap_loop (c @ [x]) ?n 0 x)"
    using _ _ hh bc refl by (rule push_heap_loop_heap) simp_all
  then show "heap_upto (length (heap_push c x)) (heap_push c x)"
    by (simp add: heap_push_def)
  have "mset (push_heap_loop (c @ [x]) ?n 0 x) = mset ((c @ [x])[?n := x])"
    by (rule push_heap_loop_mset) simp
  then show "mset (heap_push c x) = mset c + {#x#}"
    by (simp add: heap_push_def)
qed

lemma heap_pop_heap:
  assumes h: "heap_upto (length c) c" and ne: "c \<noteq> []"
  shows "heap_upto (length (heap_pop c)) (heap_pop c)"
    and "mset (heap_pop c) = mset c - {#c ! 0#}"
proof -
  show "heap_upto (length (heap_pop c)) (heap_pop c)"
    and "mset (heap_pop c) = mset c - {#c ! 0#}"
  proof (atomize (full), cases "length c > 1")
    case False
    with ne obtain a where "c = [a]" by (cases c) auto
    then show "heap_upto (length (heap_pop c)) (heap_pop c)
        \<and> mset (heap_pop c) = mset c - {#c ! 0#}"
      by (simp add: heap_pop_def heap_upto_def)
  next
    case True
    let ?n = "length c"
    let ?len = "?n - 1"
    let ?c = "c[?len := c ! 0]"
    let ?r = "adjust_heap ?c 0 ?len (last c)"
    have len: "0 < ?len" "?len \<le> length ?c" using True by simp_all
    have hh: "hole_heap ?len 0 ?c"
      unfolding hole_heap_def
    proof (intro conjI allI impI)
      fix i
      assume a: "0 < i \<and> i < ?len \<and> i \<noteq> 0 \<and> parent i \<noteq> 0"
      then have pi: "parent i < ?len" using parent_less [of i] by auto
      from a have "0 < i \<and> i < length c" by auto
      with h have "key (c ! parent i) \<le> key (c ! i)" unfolding heap_upto_def by blast
      with a pi show "key (?c ! parent i) \<le> key (?c ! i)" by simp
    next
      fix j
      assume "(0::nat) < 0 \<and> 0 < j \<and> j < ?len \<and> parent j = 0"
      then show "key (?c ! parent 0) \<le> key (?c ! j)" by simp
    qed
    note ah = adjust_heap_heap [OF len hh, where v = "last c"]
    have lr: "length ?r = ?n" by simp
    have p: "heap_pop c = butlast ?r" using True by (simp add: heap_pop_def)
    have 1: "heap_upto (length (heap_pop c)) (heap_pop c)"
      unfolding heap_upto_def
    proof (intro allI impI)
      fix i
      assume a: "0 < i \<and> i < length (heap_pop c)"
      then have i: "i < ?len" by simp
      then have pi: "parent i < ?len" using a parent_less [of i] by auto
      from ah(1) a i have "key (?r ! parent i) \<le> key (?r ! i)" by (simp add: heap_upto_def)
      with i pi lr show "key (heap_pop c ! parent i) \<le> key (heap_pop c ! i)"
        by (simp add: p nth_butlast)
    qed
    have "mset ?r = mset (?c[0 := last c])" by (rule ah(2))
    also have "?c[0 := last c] = c[?len := c ! 0, 0 := c ! ?len]"
      using ne by (simp add: last_conv_nth)
    also have "mset \<dots> = mset c" using True ne by (intro mset_swap) simp_all
    finally have m: "mset ?r = mset c" .
    have rne: "?r \<noteq> []" using ne lr by (metis length_0_conv)
    have "?r ! ?len = ?c ! ?len" by (rule ah(3)) simp
    also have "?c ! ?len = c ! 0" using True by simp
    finally have "?r ! ?len = c ! 0" .
    moreover have "last ?r = ?r ! (length ?r - 1)" using rne by (rule last_conv_nth)
    ultimately have la: "last ?r = c ! 0" by (simp only: lr)
    have "mset (butlast ?r @ [last ?r]) = mset (butlast ?r) + {#last ?r#}" by simp
    moreover have "butlast ?r @ [last ?r] = ?r" using rne by (rule append_butlast_last_id)
    ultimately have "mset ?r = mset (butlast ?r) + {#c ! 0#}" using la by (simp only:)
    with m have "mset c = mset (butlast ?r) + {#c ! 0#}" by (simp only:)
    then have 2: "mset (heap_pop c) = mset c - {#c ! 0#}" by (simp add: p)
    from 1 2 show "heap_upto (length (heap_pop c)) (heap_pop c)
        \<and> mset (heap_pop c) = mset c - {#c ! 0#}" ..
  qed
qed

lemma heap_root_least:
  assumes "heap_upto (length c) c"
  shows "i < length c \<Longrightarrow> key (c ! 0) \<le> key (c ! i)"
proof (induction i rule: less_induct)
  case (less i)
  show ?case
  proof (cases "i = 0")
    case True
    then show ?thesis by simp
  next
    case False
    then have p: "parent i < i" by (simp add: parent_less)
    with less.prems have "key (c ! 0) \<le> key (c ! parent i)" by (intro less.IH) auto
    moreover from assms False less.prems have "key (c ! parent i) \<le> key (c ! i)"
      by (simp add: heap_upto_def)
    ultimately show ?thesis by simp
  qed
qed

lemma heap_root_top:
  assumes "heap_upto (length c) c" and "c \<noteq> []"
  shows "pq_top c (c ! 0)"
  unfolding pq_top_iff
proof (intro conjI ballI)
  show "c ! 0 \<in> set c" using assms(2) by simp
  fix u
  assume "u \<in> set c"
  then obtain i where "i < length c" "u = c ! i" by (auto simp: in_set_conv_nth)
  with heap_root_least [OF assms(1)] show "sint (node_freq (c ! 0)) \<le> sint (node_freq u)"
    by (simp add: key_def)
qed

lemma pq_top_mset: "mset pq = mset pq' \<Longrightarrow> pq_top pq t \<longleftrightarrow> pq_top pq' t"
  by (auto simp: pq_top_iff dest: mset_eq_setD)

lemma mset_single_list: "mset [t] = mset pq' \<Longrightarrow> pq' = [t]"
  by (simp add: eq_commute)

lemma mset_remove1_cong: "mset pq = mset pq' \<Longrightarrow> mset (remove1 l pq) = mset (remove1 l pq')"
  by simp

lemma merge_loop_mset:
  "merge_loop pq out \<Longrightarrow> mset pq = mset pq' \<Longrightarrow> merge_loop pq' out"
proof (induction arbitrary: pq' rule: merge_loop.induct)
  case (root t)
  from root have "pq' = [t]" by (rule mset_single_list)
  then show ?case by (simp add: merge_loop.root)
next
  case empty
  then show ?case by (simp add: merge_loop.empty)
next
  case (merge pq l r out)
  have len: "length pq' \<noteq> 1" using merge.hyps(1) merge.prems by (metis mset_eq_length)
  have l: "pq_top pq' l" using merge.hyps(2) pq_top_mset [OF merge.prems] by blast
  have m1: "mset (remove1 l pq) = mset (remove1 l pq')"
    using merge.prems by (rule mset_remove1_cong)
  have r: "pq_top (remove1 l pq') r" using merge.hyps(3) pq_top_mset [OF m1] by blast
  have "mset (remove1 r (remove1 l pq)) = mset (remove1 r (remove1 l pq'))"
    using m1 by (rule mset_remove1_cong)
  then have "mset (Node 0 (node_freq l + node_freq r) l r # remove1 r (remove1 l pq)) =
      mset (Node 0 (node_freq l + node_freq r) l r # remove1 r (remove1 l pq'))"
    by (simp only: mset.simps)
  then have "merge_loop (Node 0 (node_freq l + node_freq r) l r # remove1 r (remove1 l pq')) out"
    by (rule merge.IH)
  with len l r show ?case by (rule merge_loop.merge)
qed

lemma merge_heap_run: "heap_upto (length pq) pq \<Longrightarrow> merge_loop pq (merge_heap pq)"
proof (induction pq rule: merge_heap.induct)
  case (1 pq)
  show ?case
  proof (cases "length pq = 1")
    case True
    then obtain t where "pq = [t]" by (cases pq) auto
    then show ?thesis
      by (subst merge_heap.simps) (simp add: heap_top_def merge_loop.root)
  next
    case one: False
    show ?thesis
    proof (cases "pq = []")
      case True
      then show ?thesis
        by (subst merge_heap.simps) (simp add: heap_top_def merge_loop.empty)
    next
      case False
      then have "length pq \<noteq> 0" by simp
      with one have two: "2 \<le> length pq" by linarith
      let ?l = "pq ! 0"
      let ?pq1 = "heap_pop pq"
      let ?r = "?pq1 ! 0"
      let ?pq2 = "heap_pop ?pq1"
      let ?n = "Node 0 (node_freq ?l + node_freq ?r) ?l ?r"
      let ?pq3 = "heap_push ?pq2 ?n"
      have tl: "heap_top pq = Inr ?l" using False by (cases pq) (simp_all add: heap_top_def)
      have ne1: "?pq1 \<noteq> []"
      proof
        assume e: "?pq1 = []"
        have "length ?pq1 = length pq - 1" by (rule length_heap_pop)
        with e two show False by simp
      qed
      then have tr: "heap_top ?pq1 = Inr ?r" by (cases ?pq1) (simp_all add: heap_top_def)
      have h1: "heap_upto (length ?pq1) ?pq1" and m1: "mset ?pq1 = mset pq - {#?l#}"
        using heap_pop_heap [OF "1.prems" False] by auto
      have h2: "heap_upto (length ?pq2) ?pq2" and m2: "mset ?pq2 = mset ?pq1 - {#?r#}"
        using heap_pop_heap [OF h1 ne1] by auto
      have h3: "heap_upto (length ?pq3) ?pq3" and m3: "mset ?pq3 = mset ?pq2 + {#?n#}"
        using heap_push_heap [OF h2, of ?n] by auto
      have top_l: "pq_top pq ?l" using "1.prems" False by (rule heap_root_top)
      have "pq_top ?pq1 ?r" using h1 ne1 by (rule heap_root_top)
      moreover have e1: "mset ?pq1 = mset (remove1 ?l pq)" using m1 by simp
      ultimately have top_r: "pq_top (remove1 ?l pq) ?r"
        using pq_top_mset [of ?pq1 "remove1 ?l pq" ?r] by blast
      have "merge_loop ?pq3 (merge_heap ?pq3)"
        using one tl tr h3 by (rule "1.IH")
      moreover have "mset ?pq3 = mset (?n # remove1 ?r (remove1 ?l pq))"
        using m3 m2 e1 by simp
      ultimately have "merge_loop (?n # remove1 ?r (remove1 ?l pq)) (merge_heap ?pq3)"
        by (rule merge_loop_mset)
      with one top_l top_r have "merge_loop pq (merge_heap ?pq3)" by (rule merge_loop.merge)
      moreover have "merge_heap pq = merge_heap ?pq3"
        using one tl tr by (subst merge_heap.simps) simp
      ultimately show ?thesis by simp
    qed
  qed
qed

lemma heap_of_pushes:
  "heap_upto (length c) c \<Longrightarrow>
   heap_upto (length (foldl heap_push c xs)) (foldl heap_push c xs)
   \<and> mset (foldl heap_push c xs) = mset c + mset xs"
proof (induction xs arbitrary: c)
  case Nil
  then show ?case by simp
next
  case (Cons x xs)
  from heap_push_heap [OF Cons.prems, of x]
  have "heap_upto (length (heap_push c x)) (heap_push c x)"
    and "mset (heap_push c x) = mset c + {#x#}" by auto
  with Cons.IH [of "heap_push c x"] show ?case by simp
qed

lemma keys_iteration_order:
  assumes "distinct keys" and "set keys = set data"
  shows "iteration_order (count_frequencies data)
    (map (\<lambda>k. (k, case count_frequencies data k of None \<Rightarrow> 0 | Some n \<Rightarrow> n)) keys)"
proof -
  have "map_of (map (\<lambda>k. (k, case count_frequencies data k of None \<Rightarrow> 0 | Some n \<Rightarrow> n)) keys) =
      count_frequencies data"
    using assms(2)
    by (auto simp: fun_eq_iff count_frequencies_eq map_of_map_restrict restrict_map_def)
  with assms(1) show ?thesis by (simp add: iteration_order_def comp_def)
qed

lemma buildHuffmanTree_heap_run:
  assumes "distinct keys" and "set keys = set data"
  shows "buildHuffmanTree data huffmanCode (buildHuffmanTree_heap keys data huffmanCode)"
proof -
  let ?es = "map (\<lambda>k. (k, case count_frequencies data k of None \<Rightarrow> 0 | Some n \<Rightarrow> n)) keys"
  let ?pq = "foldl (\<lambda>pq pair. heap_push pq (leaf_of pair)) [] ?es"
  have it: "iteration_order (count_frequencies data) ?es"
    using assms by (rule keys_iteration_order)
  have "?pq = foldl heap_push [] (map leaf_of ?es)" by (simp only: foldl_map)
  moreover have "heap_upto (length ([] :: HuffmanNode list)) []" by (simp add: heap_upto_def)
  ultimately have h: "heap_upto (length ?pq) ?pq" and m: "mset ?pq = mset (map leaf_of ?es)"
    using heap_of_pushes [of "[]" "map leaf_of ?es"] by simp_all
  have "merge_loop ?pq (merge_heap ?pq)" using h by (rule merge_heap_run)
  then have ml: "merge_loop (map leaf_of ?es) (merge_heap ?pq)" using m by (rule merge_loop_mset)
  have b: "buildHuffmanTree_heap keys data huffmanCode =
      (case merge_heap ?pq of Inl e \<Rightarrow> Inl e | Inr root \<Rightarrow> Inr (encode root [] huffmanCode))"
    by (simp add: buildHuffmanTree_heap_def Let_def)
  show ?thesis
  proof (cases "merge_heap ?pq")
    case (Inl e)
    with it ml have "buildHuffmanTree data huffmanCode (Inl e)"
      by (auto intro: buildHuffmanTree.failed)
    with Inl b show ?thesis by simp
  next
    case (Inr root)
    with it ml have "buildHuffmanTree data huffmanCode (Inr (encode root [] huffmanCode))"
      by (auto intro: buildHuffmanTree.built)
    with Inr b show ?thesis by simp
  qed
qed

lemma huffmanEncode_heap_run:
  assumes "distinct keys" and "set keys = set data"
  shows "huffmanEncode data (huffmanEncode_heap keys data)"
proof (cases "buildHuffmanTree_heap keys data Map.empty")
  case (Inl e)
  with buildHuffmanTree_heap_run [OF assms, of Map.empty]
  show ?thesis by (simp add: huffmanEncode_heap_def huffmanEncode.failed)
next
  case (Inr huffmanCode)
  with buildHuffmanTree_heap_run [OF assms, of Map.empty]
  show ?thesis by (simp add: huffmanEncode_heap_def huffmanEncode.packed)
qed

subsection \<open>Runs on small buffers\<close>

text \<open>
  The heap run evaluated: the buffer 0x61 0x62 with the table traversed in either
  order, the empty buffer, and the buffer 01 02 03 04 with the table traversed
  04 03 02 01, where the queue gives up the leaves 04 and 02 first and the codes are
  01 -> 11, 02 -> 01, 03 -> 10, 04 -> 00.
\<close>

lemmas heap_run_simps =
  huffmanEncode_heap_def buildHuffmanTree_heap_def count_frequencies_eq leaf_of_def
  merge_heap.simps heap_top_def heap_push_def heap_pop_def adjust_heap_def
  adjust_loop.simps push_heap_loop.simps second_child_def HuffmanNodeCompare_def
  encoded_string_concat code_of_def pack_loop.simps bitset8_def bit_char_def

lemma heap_run_ab: "huffmanEncode_heap [97, 98] [97, 98] = Inr [1]"
  by (simp add: heap_run_simps)

lemma heap_run_ba: "huffmanEncode_heap [98, 97] [97, 98] = Inr [2]"
  by (simp add: heap_run_simps)

lemma heap_run_empty: "huffmanEncode_heap [] [] = Inl EmptyQueueAccess"
  by (simp add: heap_run_simps)

lemma heap_run_1234: "huffmanEncode_heap [4, 3, 2, 1] [1, 2, 3, 4] = Inr [216]"
  by (simp add: heap_run_simps)

section \<open>Buffers with two distinct bytes\<close>

lemma merge_two_leaves:
  assumes "sint fa \<le> sint fb"
  shows "merge_loop [Leaf a fa, Leaf b fb] (Inr (Node 0 (fa + fb) (Leaf a fa) (Leaf b fb)))"
    and "merge_loop [Leaf b fb, Leaf a fa] (Inr (Node 0 (fa + fb) (Leaf a fa) (Leaf b fb)))"
proof -
  let ?l = "Leaf a fa" and ?r = "Leaf b fb"
  have fin: "merge_loop [Node 0 (node_freq ?l + node_freq ?r) ?l ?r]
      (Inr (Node 0 (fa + fb) ?l ?r))"
    by (simp add: merge_loop_single)
  have 1: "pq_top [?l, ?r] ?l" using assms by (simp add: pq_top_iff)
  have 2: "pq_top (remove1 ?l [?l, ?r]) ?r" by (simp add: pq_top_iff)
  have "merge_loop [?l, ?r] (Inr (Node 0 (fa + fb) ?l ?r))"
    by (rule merge_loop.merge [OF _ 1 2]) (use fin in simp_all)
  then show "merge_loop [Leaf a fa, Leaf b fb] (Inr (Node 0 (fa + fb) (Leaf a fa) (Leaf b fb)))" .
  have 3: "pq_top [?r, ?l] ?l" using assms by (simp add: pq_top_iff)
  have 4: "pq_top (remove1 ?l [?r, ?l]) ?r" by (auto simp: pq_top_iff)
  have "merge_loop [?r, ?l] (Inr (Node 0 (fa + fb) ?l ?r))"
    by (rule merge_loop.merge [OF _ 3 4]) (use fin in auto)
  then show "merge_loop [Leaf b fb, Leaf a fa] (Inr (Node 0 (fa + fb) (Leaf a fa) (Leaf b fb)))" .
qed

lemma build_two_symbols:
  assumes "count_frequencies data = [a \<mapsto> fa, b \<mapsto> fb]" and "a \<noteq> b"
    and "sint fa \<le> sint fb"
  shows "buildHuffmanTree data huffmanCode (Inr (huffmanCode(a \<mapsto> ''0'', b \<mapsto> ''1'')))"
proof -
  have "iteration_order (count_frequencies data) [(a, fa), (b, fb)]"
    using assms(1,2) by (auto simp: iteration_order_def fun_eq_iff)
  moreover have "merge_loop (map leaf_of [(a, fa), (b, fb)])
      (Inr (Node 0 (fa + fb) (Leaf a fa) (Leaf b fb)))"
    using merge_two_leaves(1) [OF assms(3)] by (simp add: leaf_of_def)
  ultimately have "buildHuffmanTree data huffmanCode
      (Inr (encode (Node 0 (fa + fb) (Leaf a fa) (Leaf b fb)) [] huffmanCode))"
    by (rule buildHuffmanTree.built)
  then show ?thesis by simp
qed

lemma pack_one_group:
  assumes "0 < length s" and "length s \<le> 8" and "bitset8 s = Inr b"
  shows "pack_loop s 0 [] = Inr [b]"
proof -
  have "pack_loop s 8 [b] = Inr [b]" using assms(2) by (subst pack_loop.simps) simp
  with assms show ?thesis by (subst pack_loop.simps) simp
qed

theorem code_table_prefix_free_witness:
  "[97, 98, 98 :: uchar] \<noteq> []
   \<and> buildHuffmanTree [97, 98, 98] Map.empty (Inr [97 \<mapsto> ''0'', 98 \<mapsto> ''1''])
   \<and> dom [97 \<mapsto> ''0'', 98 \<mapsto> ''1''] = set [97, 98, 98 :: uchar]
   \<and> prefix_free [97 \<mapsto> ''0'', 98 \<mapsto> ''1'']"
proof -
  have ne: "[97, 98, 98 :: uchar] \<noteq> []" by simp
  have "count_frequencies [97, 98, 98] = [97 \<mapsto> 1, 98 \<mapsto> 2]"
    by (auto simp: fun_eq_iff count_frequencies_eq)
  then have b: "buildHuffmanTree [97, 98, 98] Map.empty (Inr [97 \<mapsto> ''0'', 98 \<mapsto> ''1''])"
    using build_two_symbols [of "[97, 98, 98]" 97 1 98 2 Map.empty] by simp
  with code_table_prefix_free [OF ne] have
    "dom [97 \<mapsto> ''0'', 98 \<mapsto> ''1''] = set [97, 98, 98 :: uchar]
     \<and> prefix_free [97 \<mapsto> ''0'', 98 \<mapsto> ''1'']"
    by blast
  with ne b show ?thesis by blast
qed

section \<open>Where the encoder departs from the specification\<close>

text \<open>
  Claim C5 asks that compressing a buffer give the same bytes whatever the container
  iteration order or platform, ties in frequency included. \<open>HuffmanNodeCompare\<close> looks
  at \<open>freq\<close> alone, so with the two bytes of the buffer 0x61 0x62, each occurring once,
  either leaf may be taken first from the queue: taking 0x61 first gives the codes
  0x61 -> 0, 0x62 -> 1 and the output byte 1; taking 0x62 first gives 0x62 -> 0,
  0x61 -> 1 and the output byte 2. Both are runs of \<open>huffmanEncode\<close> on the same
  buffer; the heap of the library gives the first when the frequency table is
  traversed 0x61 first, and the second when it is traversed 0x62 first.
\<close>

theorem tie_two_outputs:
  "huffmanEncode_heap [97, 98] [97, 98] = Inr [1]
   \<and> huffmanEncode_heap [98, 97] [97, 98] = Inr [2]
   \<and> huffmanEncode [97, 98] (Inr [1]) \<and> huffmanEncode [97, 98] (Inr [2])"
proof -
  have "huffmanEncode [97, 98] (huffmanEncode_heap [97, 98] [97, 98])"
    by (rule huffmanEncode_heap_run) simp_all
  moreover have "huffmanEncode [97, 98] (huffmanEncode_heap [98, 97] [97, 98])"
    by (rule huffmanEncode_heap_run) auto
  ultimately show ?thesis by (simp add: heap_run_ab heap_run_ba)
qed

text \<open>
  Claim C3 asks that the empty buffer short-circuit to an empty-stream marker with no
  attempt at tree construction. The frequency table of the empty buffer is empty, as
  claimed, but \<open>huffmanEncode\<close> calls \<open>buildHuffmanTree\<close> all the same: the queue
  is empty, the loop condition \<open>pq.size() != 1\<close> holds, and the loop body reads the
  top of an empty queue. That is the only run there is.
\<close>

theorem empty_input_accesses_empty_queue:
  "count_frequencies [] = Map.empty
   \<and> (buildHuffmanTree [] Map.empty r \<longleftrightarrow> r = Inl EmptyQueueAccess)
   \<and> (huffmanEncode [] out \<longleftrightarrow> out = Inl EmptyQueueAccess)
   \<and> huffmanEncode_heap [] [] = Inl EmptyQueueAccess"
proof -
  have "huffmanEncode [] (huffmanEncode_heap [] [])"
    by (rule huffmanEncode_heap_run) simp_all
  then have "huffmanEncode_heap [] [] = Inl EmptyQueueAccess"
    by (simp add: huffmanEncode_Nil)
  then show ?thesis
    by (simp add: count_frequencies_Nil buildHuffmanTree_Nil huffmanEncode_Nil)
qed

text \<open>
  Claim C4 asks that a buffer with exactly one distinct byte value get a tree with at
  least one branch and a non-empty code. Tree construction does not fail, but the
  queue then holds one leaf, the merge loop is not entered, the root is that leaf and
  \<open>encode\<close> stores the empty string for the byte; \<open>huffmanEncode\<close> returns the empty
  buffer. The instance shown is the buffer of 10 copies of 0x41.
\<close>

theorem single_symbol_gets_empty_code:
  assumes "set data = {a}"
  shows "(buildHuffmanTree data Map.empty r \<longleftrightarrow> r = Inr [a \<mapsto> []])
    \<and> (huffmanEncode data out \<longleftrightarrow> out = Inr [])"
  using assms by (simp add: buildHuffmanTree_one_symbol huffmanEncode_one_symbol)

theorem single_symbol_gets_empty_code_witness:
  "set (replicate 10 (0x41 :: uchar)) = {0x41}
   \<and> buildHuffmanTree (replicate 10 0x41) Map.empty (Inr [0x41 \<mapsto> []])
   \<and> huffmanEncode (replicate 10 0x41) (Inr [])"
proof -
  have h: "set (replicate 10 (0x41 :: uchar)) = {0x41}" by simp
  from single_symbol_gets_empty_code [OF h] h show ?thesis by simp
qed

section \<open>Bit packing\<close>

text \<open>
  \<open>numeral_of\<close> is the number a string of 0 and 1 characters denotes in binary, most
  significant character first.
\<close>

definition numeral_of :: "string \<Rightarrow> nat" where
  "numeral_of s = foldl (\<lambda>v c. 2 * v + (if c = CHR ''1'' then 1 else 0)) 0 s"

lemma numeral_of_Nil [simp]: "numeral_of [] = 0"
  by (simp add: numeral_of_def)

lemma numeral_of_snoc [simp]:
  "numeral_of (s @ [c]) = 2 * numeral_of s + (if c = CHR ''1'' then 1 else 0)"
  by (simp add: numeral_of_def)











subsection \<open>Concrete packings\<close>



lemma pack_1101: "pack_loop ''1101'' 0 [] = Inr [13]"
  by (rule pack_one_group) (simp_all add: bitset8_def bit_char_def)





section \<open>Round trip\<close>

text \<open>
  Modelled from the spec: the pipeline \<^verbatim>\<open>compress\<close> of the specification, the RLE stage
  followed by Huffman encoding. The source defines the two stages and never composes
  them (\<^verbatim>\<open>main\<close> calls neither).
\<close>

definition compress :: "uchar list \<Rightarrow> error + uchar list \<Rightarrow> bool" where
  "compress B out \<longleftrightarrow> huffmanEncode (runLengthEncode B) out"

text \<open>
  Modelled from the spec: the RLE expansion \<^verbatim>\<open>decode(runs) -> bytes\<close> of the
  specification, which the source does not have: each pair is expanded into
  \<open>count\<close> repetitions of \<open>value\<close>, in order, and a zero count or a stream that ends
  in the middle of a pair is a \<open>MalformedRun\<close>.
\<close>

datatype decode_error = MalformedRun

fun rle_decode :: "uchar list \<Rightarrow> decode_error + uchar list" where
  "rle_decode [] = Inr []"
| "rle_decode [v] = Inl MalformedRun"
| "rle_decode (v # c # rest) =
     (if c = 0 then Inl MalformedRun
      else (case rle_decode rest of
              Inl e \<Rightarrow> Inl e
            | Inr bytes \<Rightarrow> Inr (replicate (unat c) v @ bytes)))"

lemma rle_decode_flat:
  "list_all (\<lambda>r. 0 < snd r \<and> snd r \<le> 255) rs \<Longrightarrow>
   rle_decode (flat_runs (map counted rs)) = Inr (concat (map (\<lambda>(v, n). replicate n v) rs))"
proof (induction rs)
  case Nil
  then show ?case by simp
next
  case (Cons r rs)
  obtain v n where r: "r = (v, n)" by (cases r)
  with Cons.prems have n: "0 < n" "n \<le> 255" by auto
  then have u: "unat (of_nat n :: uchar) = n" by (simp add: unat_of_nat)
  with n have nz: "(of_nat n :: uchar) \<noteq> 0" by (metis less_numeral_extra(3) unat_0)
  from Cons have "rle_decode (flat_runs (map counted rs)) =
      Inr (concat (map (\<lambda>(v, n). replicate n v) rs))" by simp
  with r u nz show ?case by simp
qed

text \<open>
  Claim C1 asks for \<open>decompress (compress B) = B\<close> for every buffer. The source has no
  decoder, and none can be written for its \<open>compress\<close>: the output holds neither the
  code table nor the symbols, so the different buffers 01 02 and 01 03 are both
  compressed to the single byte 13.
\<close>

theorem no_decoder_can_exist:
  "compress [1, 2] (Inr [13]) \<and> compress [1, 3] (Inr [13]) \<and> [1, 2] \<noteq> [1, 3 :: uchar]"
proof -
  have r2: "runLengthEncode [1, 2] = [1, 1, 2, 1]" by (simp add: runLengthEncode_runs)
  have r3: "runLengthEncode [1, 3] = [1, 1, 3, 1]" by (simp add: runLengthEncode_runs)
  have "count_frequencies [1, 1, 2, 1] = [2 \<mapsto> 1, 1 \<mapsto> 3]"
    by (auto simp: fun_eq_iff count_frequencies_eq)
  then have "buildHuffmanTree [1, 1, 2, 1] Map.empty (Inr [2 \<mapsto> ''0'', 1 \<mapsto> ''1''])"
    using build_two_symbols [of "[1, 1, 2, 1]" 2 1 1 3 Map.empty] by simp
  then have "huffmanEncode [1, 1, 2, 1]
      (pack_loop (encoded_string [2 \<mapsto> ''0'', 1 \<mapsto> ''1''] [1, 1, 2, 1]) 0 [])"
    by (rule huffmanEncode.packed)
  moreover have "encoded_string [2 \<mapsto> ''0'', 1 \<mapsto> ''1''] [1, 1, 2, 1] = ''1101''"
    by (simp add: encoded_string_concat code_of_def)
  ultimately have h2: "huffmanEncode [1, 1, 2, 1] (Inr [13])" by (simp only: pack_1101)
  have "count_frequencies [1, 1, 3, 1] = [3 \<mapsto> 1, 1 \<mapsto> 3]"
    by (auto simp: fun_eq_iff count_frequencies_eq)
  then have "buildHuffmanTree [1, 1, 3, 1] Map.empty (Inr [3 \<mapsto> ''0'', 1 \<mapsto> ''1''])"
    using build_two_symbols [of "[1, 1, 3, 1]" 3 1 1 3 Map.empty] by simp
  then have "huffmanEncode [1, 1, 3, 1]
      (pack_loop (encoded_string [3 \<mapsto> ''0'', 1 \<mapsto> ''1''] [1, 1, 3, 1]) 0 [])"
    by (rule huffmanEncode.packed)
  moreover have "encoded_string [3 \<mapsto> ''0'', 1 \<mapsto> ''1''] [1, 1, 3, 1] = ''1101''"
    by (simp add: encoded_string_concat code_of_def)
  ultimately have h3: "huffmanEncode [1, 1, 3, 1] (Inr [13])" by (simp only: pack_1101)
  from h2 h3 show ?thesis by (simp add: compress_def r2 r3)
qed

text \<open>
  Claim C1, as far as the source supports it: the RLE stage alone can be inverted.
  For every buffer \<open>B\<close> whose maximal runs are all at most 255 long, expanding the
  pairs that \<open>runLengthEncode B\<close> emits gives \<open>B\<close> back.
\<close>

theorem rle_stage_round_trip:
  assumes "list_all (\<lambda>r. snd r \<le> 255) (maximal_runs B)"
  shows "rle_decode (runLengthEncode B) = Inr B"
proof -
  have "list_all (\<lambda>r. 0 < snd r \<and> snd r \<le> 255) (maximal_runs B)"
    using assms maximal_runs_pos [of _ _ B] unfolding list_all_iff by fastforce
  then show ?thesis
    by (simp add: runLengthEncode_runs rle_decode_flat maximal_runs_expand)
qed

theorem rle_stage_round_trip_witness:
  "maximal_runs [97, 97, 97, 97, 98, 98, 98, 99, 99 :: uchar] = [(97, 4), (98, 3), (99, 2)]
   \<and> rle_decode (runLengthEncode [97, 97, 97, 97, 98, 98, 98, 99, 99]) =
       Inr [97, 97, 97, 97, 98, 98, 98, 99, 99]"
proof -
  have runs: "maximal_runs [97, 97, 97, 97, 98, 98, 98, 99, 99 :: uchar] =
      [(97, 4), (98, 3), (99, 2)]"
    by simp
  then have "list_all (\<lambda>r. snd r \<le> 255)
      (maximal_runs [97, 97, 97, 97, 98, 98, 98, 99, 99 :: uchar])"
    by simp
  from rle_stage_round_trip [OF this] runs show ?thesis by simp
qed

end
